theory Spec2Isabelle
  imports Main "HOL-Library.Word"
begin

section \<open>JavaScript operators used by the source\<close>

text \<open>
  An optional property (\<^verbatim>\<open>dev?: boolean\<close>) is an \<open>option\<close>: \<open>None\<close> is \<^verbatim>\<open>undefined\<close>.
  \<^verbatim>\<open>a ?? b\<close> takes \<open>b\<close> exactly when \<open>a\<close> is nullish, and \<^verbatim>\<open>!a\<close> on a
  \<^verbatim>\<open>boolean | undefined\<close> is true for \<^verbatim>\<open>undefined\<close> and for \<^verbatim>\<open>false\<close>.
\<close>

definition nullish :: "'a option \<Rightarrow> 'a \<Rightarrow> 'a" where
  "nullish a b = (case a of None \<Rightarrow> b | Some v \<Rightarrow> v)"

definition nullish_opt :: "'a option \<Rightarrow> 'a option \<Rightarrow> 'a option" where
  "nullish_opt a b = (case a of None \<Rightarrow> b | Some v \<Rightarrow> Some v)"

definition js_not :: "bool option \<Rightarrow> bool" where
  "js_not a = (case a of None \<Rightarrow> True | Some v \<Rightarrow> \<not> v)"

text \<open>The decimal digits of a number, as a template literal \<^verbatim>\<open>`${n}`\<close> prints them.\<close>

definition digit_char :: "nat \<Rightarrow> char" where
  "digit_char n = ''0123456789'' ! n"

fun string_of_nat :: "nat \<Rightarrow> string" where
  "string_of_nat n =
     (if n < 10 then [digit_char n]
      else string_of_nat (n div 10) @ [digit_char (n mod 10)])"

declare string_of_nat.simps [simp del]

section \<open>Data model of MetroDevServer.ts\<close>

datatype Platform = android | ios | web

datatype error = Error string | InconsistentEngineError string

text \<open>\<^verbatim>\<open>MetroDevServerOptions\<close>: only \<^verbatim>\<open>quiet\<close> is read by the code below; the logger is
  seen through the effect it has, and the loader options are passed on unread.\<close>

record MetroDevServerOptions =
  quiet :: "bool option"
  loadOptions :: "(string \<times> string) list"

record BundleOptions =
  entryPoint :: string
  platform :: Platform
  dev :: "bool option"
  minify :: "bool option"
  sourceMapUrl :: "string option"

record BundleAssetWithFileHashes =
  assetData :: string
  fileHashes :: "string list"

record BundleOutput =
  code :: string
  map_str :: string
  hermesBytecodeBundle :: "8 word list option"
  hermesSourcemap :: "string option"
  assets :: "BundleAssetWithFileHashes list"

text \<open>The events handed to \<^verbatim>\<open>reporter.update\<close>, with the payload of each.\<close>

record BundleDetails =
  bundleTypeD :: string
  platformD :: Platform
  entryFileD :: string
  devD :: bool
  minifyD :: bool

datatype ReportableEvent =
    bundle_build_started string BundleDetails
  | bundle_transform_progressed string nat nat
  | bundle_build_done string

fun buildID_of :: "ReportableEvent \<Rightarrow> string" where
  "buildID_of (bundle_build_started b _) = b"
| "buildID_of (bundle_transform_progressed b _ _) = b"
| "buildID_of (bundle_build_done b) = b"

text \<open>
  \<^verbatim>\<open>Metro.BundleOptions\<close>. The fields the source sets are fields here; what
  \<^verbatim>\<open>Server.DEFAULT_BUNDLE_OPTIONS\<close> holds besides them stays in \<open>otherOptions\<close>.
  \<open>onProgress\<close> is the callback: its value is the list of events it reports.
\<close>

record Metro_BundleOptions =
  bundleType :: string
  platformM :: Platform
  entryFile :: string
  devM :: bool
  minifyM :: bool
  inlineSourceMap :: bool
  sourceMapUrlM :: "string option"
  createModuleIdFactory :: "string \<Rightarrow> nat"
  onProgress :: "nat \<Rightarrow> nat \<Rightarrow> ReportableEvent list"
  otherOptions :: "(string \<times> string) list"

text \<open>The part of the loaded Metro configuration that the source reads; \<open>'h\<close> is the
  type of the hook \<^verbatim>\<open>server.enhanceMiddleware\<close>.\<close>

record 'h MetroConfig =
  server_port :: nat
  server_enhanceMiddleware :: "'h option"
  watchFolders :: "string list"
  serializer_createModuleIdFactory :: "string \<Rightarrow> nat"

section \<open>bundleAsync: the options of one build\<close>

text \<open>The object literal \<^verbatim>\<open>bundleOptions\<close> of \<^verbatim>\<open>buildAsync\<close> (lines 111 to 131): the
  defaults spread first, then the fields set from the request.\<close>

definition progressCallback ::
  "MetroDevServerOptions \<Rightarrow> string \<Rightarrow> nat \<Rightarrow> nat \<Rightarrow> ReportableEvent list" where
  "progressCallback options buildID transformedFileCount totalFileCount =
     (if js_not (quiet options)
      then [bundle_transform_progressed buildID transformedFileCount totalFileCount]
      else [])"

definition bundleOptions_of ::
  "Metro_BundleOptions \<Rightarrow> 'h MetroConfig \<Rightarrow> MetroDevServerOptions \<Rightarrow> string \<Rightarrow> BundleOptions
     \<Rightarrow> Metro_BundleOptions" where
  "bundleOptions_of DEFAULT_BUNDLE_OPTIONS config options buildID bundle =
     DEFAULT_BUNDLE_OPTIONS
       \<lparr> bundleType := ''bundle'',
         platformM := platform bundle,
         entryFile := entryPoint bundle,
         devM := nullish (dev bundle) False,
         minifyM := nullish (minify bundle) (js_not (dev bundle)),
         inlineSourceMap := False,
         sourceMapUrlM := sourceMapUrl bundle,
         createModuleIdFactory := serializer_createModuleIdFactory config,
         onProgress := progressCallback options buildID \<rparr>"

text \<open>The \<^verbatim>\<open>bundle_build_started\<close> event of lines 132 to 142.\<close>

definition startedEvent :: "string \<Rightarrow> Metro_BundleOptions \<Rightarrow> BundleOptions \<Rightarrow> ReportableEvent" where
  "startedEvent buildID bundleOptions bundle =
     bundle_build_started buildID
       \<lparr> bundleTypeD = bundleType bundleOptions,
         platformD = platform bundle,
         entryFileD = entryPoint bundle,
         devD = nullish (dev bundle) False,
         minifyD = nullish (minify bundle) False \<rparr>"

section \<open>The external collaborators\<close>

text \<open>
  Metro, the configuration loader, the Hermes helpers of \<^verbatim>\<open>./HermesBundler\<close>, chalk and
  the file system are not part of this file of the program: what they answer is a
  parameter. The first argument of \<open>build_progress\<close>, \<open>build\<close>, \<open>getAssets\<close>,
  \<open>maybeThrowFromInconsistentEngineAsync\<close> and \<open>buildHermesBundleAsync\<close> is the position in
  \<^verbatim>\<open>bundles\<close> of the target the call is made for, so that two calls with equal
  arguments may end differently. A call that can throw or reject answers with a sum
  (\<open>Inl\<close> the error) or with \<open>Some\<close> error. \<open>build_progress\<close> lists the
  \<^verbatim>\<open>(transformedFileCount, totalFileCount)\<close> pairs with which Metro calls
  \<^verbatim>\<open>onProgress\<close> before the build settles.
\<close>

record ConfigFilePaths =
  dynamicConfigPath :: "string option"
  staticConfigPath :: "string option"

record HermesBundleOutput =
  hbc :: "8 word list"
  sourcemap :: string

record ('cfg, 'h) env =
  importMetroFromProject :: "string \<Rightarrow> error option"
  importMetroServerFromProject :: "string \<Rightarrow> error + Metro_BundleOptions"
  loadAsync :: "string \<Rightarrow> MetroDevServerOptions \<Rightarrow> error + 'h MetroConfig"
  runMetro :: "'h MetroConfig \<Rightarrow> error option"
  build_progress :: "nat \<Rightarrow> Metro_BundleOptions \<Rightarrow> (nat \<times> nat) list"
  build :: "nat \<Rightarrow> Metro_BundleOptions \<Rightarrow> error + (string \<times> string)"
  getAssets :: "nat \<Rightarrow> Metro_BundleOptions \<Rightarrow> error + BundleAssetWithFileHashes list"
  isEnableHermesManaged :: "'cfg \<Rightarrow> Platform \<Rightarrow> bool"
  getConfigFilePaths :: "string \<Rightarrow> ConfigFilePaths"
  maybeThrowFromInconsistentEngineAsync ::
    "nat \<Rightarrow> string \<Rightarrow> string \<Rightarrow> Platform \<Rightarrow> bool \<Rightarrow> error option"
  buildHermesBundleAsync ::
    "nat \<Rightarrow> string \<Rightarrow> string \<Rightarrow> string \<Rightarrow> bool option \<Rightarrow> error + HermesBundleOutput"
  chalk_bold :: "string \<Rightarrow> string"

text \<open>
  What the program does to the outside, in the order it does it. A call that is awaited
  leaves two marks: the call and, when its promise settles, the settlement.
\<close>

datatype effect =
    reporter_update ReportableEvent
  | metroServer_build nat Metro_BundleOptions
  | metroServer_build_settled nat
  | metroServer_getAssets nat Metro_BundleOptions
  | metroServer_getAssets_settled nat
  | engine_check nat string string Platform bool
  | logger_info string string
  | hermes_build nat string string string "bool option"
  | hermes_build_settled nat
  | metroServer_end

section \<open>bundleAsync: the concurrent builds\<close>

text \<open>
  \<^verbatim>\<open>bundles.map(bundle => buildAsync(bundle))\<close> runs every \<^verbatim>\<open>buildAsync\<close> up to its
  first \<^verbatim>\<open>await\<close>, in the order of the requests: the started event and the call of
  \<^verbatim>\<open>metroServer.build\<close>. What is left of each call is a task, which goes on when Metro
  calls back or a promise settles.
\<close>

datatype task =
    Building Metro_BundleOptions "(nat \<times> nat) list"
  | GettingAssets Metro_BundleOptions string string
  | Fulfilled BundleOutput

definition buildAsync_start ::
  "('cfg, 'h) env \<Rightarrow> Metro_BundleOptions \<Rightarrow> 'h MetroConfig \<Rightarrow> MetroDevServerOptions \<Rightarrow> string
     \<Rightarrow> nat \<Rightarrow> BundleOptions \<Rightarrow> effect list \<times> task" where
  "buildAsync_start env DEFAULT_BUNDLE_OPTIONS config options buildID i bundle =
     (let bundleOptions = bundleOptions_of DEFAULT_BUNDLE_OPTIONS config options buildID bundle
      in ([reporter_update (startedEvent buildID bundleOptions bundle),
           metroServer_build i bundleOptions],
          Building bundleOptions (build_progress env i bundleOptions)))"

text \<open>One step of a task: a progress callback, the settlement of \<^verbatim>\<open>metroServer.build\<close>
  (line 143) or the settlement of \<^verbatim>\<open>metroServer.getAssets\<close> (lines 144 to 151). \<open>Inl\<close>
  is the rejection of the promise of \<^verbatim>\<open>buildAsync\<close>.\<close>

fun buildAsync_step ::
  "('cfg, 'h) env \<Rightarrow> string \<Rightarrow> nat \<Rightarrow> task \<Rightarrow> effect list \<times> (error + task)" where
  "buildAsync_step env buildID i (Building bundleOptions ((t, n) # ps)) =
     (map reporter_update (onProgress bundleOptions t n), Inr (Building bundleOptions ps))"
| "buildAsync_step env buildID i (Building bundleOptions []) =
     (case build env i bundleOptions of
        Inl e \<Rightarrow> ([metroServer_build_settled i], Inl e)
      | Inr (c, m) \<Rightarrow>
          ([metroServer_build_settled i, metroServer_getAssets i bundleOptions],
           Inr (GettingAssets bundleOptions c m)))"
| "buildAsync_step env buildID i (GettingAssets bundleOptions c m) =
     (case getAssets env i bundleOptions of
        Inl e \<Rightarrow> ([metroServer_getAssets_settled i], Inl e)
      | Inr a \<Rightarrow>
          ([metroServer_getAssets_settled i, reporter_update (bundle_build_done buildID)],
           Inr (Fulfilled \<lparr> code = c, map_str = m, hermesBytecodeBundle = None,
                            hermesSourcemap = None, assets = a \<rparr>)))"
| "buildAsync_step env buildID i (Fulfilled out) = ([], Inr (Fulfilled out))"

text \<open>
  \<^verbatim>\<open>Promise.all\<close>: the tasks that are not fulfilled go on in an order the program does
  not choose. The order is the parameter \<open>sched\<close>: each entry picks one of the pending
  tasks (modulo their number), and when the schedule is used up the first pending task
  goes on. The first rejection rejects the whole; when no task is pending, the whole
  is fulfilled with the outputs in the order of the tasks. The effects listed are those
  up to the settlement of \<^verbatim>\<open>Promise.all\<close>: with a rejection the list ends at the
  settlement that rejects, and what the builds still in flight do later is not in it.
\<close>

fun steps_left :: "task \<Rightarrow> nat" where
  "steps_left (Building bundleOptions ps) = length ps + 2"
| "steps_left (GettingAssets bundleOptions c m) = 1"
| "steps_left (Fulfilled out) = 0"

fun output_of :: "task \<Rightarrow> BundleOutput option" where
  "output_of (Fulfilled out) = Some out"
| "output_of (Building bundleOptions ps) = None"
| "output_of (GettingAssets bundleOptions c m) = None"

definition pending :: "task list \<Rightarrow> nat list" where
  "pending tasks = filter (\<lambda>i. output_of (tasks ! i) = None) [0..<length tasks]"

definition pick :: "nat list \<Rightarrow> task list \<Rightarrow> nat" where
  "pick sched tasks =
     pending tasks ! ((case sched of [] \<Rightarrow> 0 | k # ks \<Rightarrow> k) mod length (pending tasks))"

function promise_all ::
  "('cfg, 'h) env \<Rightarrow> string \<Rightarrow> nat list \<Rightarrow> task list
     \<Rightarrow> effect list \<times> (error + BundleOutput list)" where
  "promise_all env buildID sched tasks =
     (if pending tasks = [] then ([], Inr (List.map_filter output_of tasks))
      else
        (case buildAsync_step env buildID (pick sched tasks) (tasks ! pick sched tasks) of
           (effs, Inl e) \<Rightarrow> (effs, Inl e)
         | (effs, Inr t) \<Rightarrow>
             (case promise_all env buildID (tl sched) (tasks[pick sched tasks := t]) of
                (effs', r) \<Rightarrow> (effs @ effs', r))))"
  by pat_completeness auto
termination
proof (relation "measure (\<lambda>(env, buildID, sched, tasks). sum_list (map steps_left tasks))")
  show "wf (measure (\<lambda>(env :: ('cfg, 'h) env, buildID :: string, sched :: nat list, tasks).
              sum_list (map steps_left tasks)))"
    by simp
next
  fix env :: "('cfg, 'h) env" and buildID :: string and sched :: "nat list"
    and tasks effs r t
  assume ne: "pending tasks \<noteq> []"
    and p: "(effs, r) = buildAsync_step env buildID (pick sched tasks) (tasks ! pick sched tasks)"
    and r: "r = Inr t"
  let ?i = "pick sched tasks"
  have "?i \<in> set (pending tasks)"
    unfolding pick_def using ne by (intro nth_mem) simp
  then have lt: "?i < length tasks" and pen: "output_of (tasks ! ?i) = None"
    by (auto simp: pending_def)
  have step: "buildAsync_step env buildID ?i (tasks ! ?i) = (effs, Inr t)"
    using p r by simp
  have "steps_left t < steps_left tk"
    if "output_of tk = None" and "buildAsync_step env buildID ?i tk = (effs, Inr t)" for tk
    using that
    by (cases "(env, buildID, ?i, tk)" rule: buildAsync_step.cases)
       (auto split: sum.splits prod.splits)
  from this [OF pen step] have less: "steps_left t < steps_left (tasks ! ?i)" .
  have "steps_left (tasks ! ?i) \<in> set (map steps_left tasks)"
    using lt by simp
  then have "steps_left (tasks ! ?i) \<le> sum_list (map steps_left tasks)"
    by (simp add: member_le_sum_list)
  then have "sum_list (map steps_left (tasks[?i := t])) + steps_left (tasks ! ?i)
          = sum_list (map steps_left tasks) + steps_left t"
    using lt by (simp add: map_update sum_list_update)
  with less show "((env, buildID, tl sched, tasks[?i := t]), env, buildID, sched, tasks)
      \<in> measure (\<lambda>(env, buildID, sched, tasks). sum_list (map steps_left tasks))"
    by simp
qed

section \<open>bundleAsync: the Hermes bytecode\<close>

text \<open>The platform as the string it is in the program, and the lookup
  \<^verbatim>\<open>{ ios: 'iOS', android: 'Android', web: 'Web' }[platform] || platform\<close>.\<close>

fun platform_string :: "Platform \<Rightarrow> string" where
  "platform_string android = ''android''"
| "platform_string ios = ''ios''"
| "platform_string web = ''web''"

definition platformName :: "Platform \<Rightarrow> string" where
  "platformName p =
     (case map_of [(''ios'', ''iOS''), (''android'', ''Android''), (''web'', ''Web'')]
             (platform_string p) of
        Some s \<Rightarrow> s
      | None \<Rightarrow> platform_string p)"

text \<open>The message of line 176; its first four bytes are the UTF-8 encoding of the
  disc sign U+1F4BF.\<close>

definition hermesMessage :: "string \<Rightarrow> string" where
  "hermesMessage platformTag =
     [CHR 0xF0, CHR 0x9F, CHR 0x92, CHR 0xBF] @ '' '' @ platformTag
       @ '' Building Hermes bytecode for the bundle''"

text \<open>Line 162: \<^verbatim>\<open>paths.dynamicConfigPath ?? paths.staticConfigPath ?? 'app.json'\<close>.\<close>

definition configFilePath_of :: "ConfigFilePaths \<Rightarrow> string" where
  "configFilePath_of paths =
     nullish (nullish_opt (dynamicConfigPath paths) (staticConfigPath paths)) ''app.json''"

text \<open>\<^verbatim>\<open>maybeAddHermesBundleAsync\<close> (lines 154 to 188), for the target at position \<open>i\<close>.
  The assignment to the two fields of \<^verbatim>\<open>bundleOutput\<close> is a record update: each output
  is an object of its own, made by \<^verbatim>\<open>buildAsync\<close>.\<close>

definition maybeAddHermesBundleAsync ::
  "('cfg, 'h) env \<Rightarrow> string \<Rightarrow> 'cfg \<Rightarrow> nat \<Rightarrow> BundleOptions \<Rightarrow> BundleOutput
     \<Rightarrow> effect list \<times> (error + BundleOutput)" where
  "maybeAddHermesBundleAsync env projectRoot expoConfig i bundle bundleOutput =
     (let isHermesManaged = isEnableHermesManaged env expoConfig (platform bundle);
          paths = getConfigFilePaths env projectRoot;
          configFilePath = configFilePath_of paths;
          check = engine_check i projectRoot configFilePath (platform bundle) isHermesManaged
      in case maybeThrowFromInconsistentEngineAsync env i projectRoot configFilePath
                (platform bundle) isHermesManaged of
           Some e \<Rightarrow> ([check], Inl e)
         | None \<Rightarrow>
             if isHermesManaged then
               (let platformTag = chalk_bold env (platformName (platform bundle));
                    effs = [check,
                            logger_info ''expo'' (hermesMessage platformTag),
                            hermes_build i projectRoot (code bundleOutput) (map_str bundleOutput)
                              (minify bundle),
                            hermes_build_settled i]
                in case buildHermesBundleAsync env i projectRoot (code bundleOutput)
                          (map_str bundleOutput) (minify bundle) of
                     Inl e \<Rightarrow> (effs, Inl e)
                   | Inr hermesBundleOutput \<Rightarrow>
                       (effs, Inr (bundleOutput
                          \<lparr> hermesBytecodeBundle := Some (hbc hermesBundleOutput),
                            hermesSourcemap := Some (sourcemap hermesBundleOutput) \<rparr>)))
             else ([check], Inr bundleOutput))"

text \<open>The loop of lines 192 to 198, from position \<open>i\<close> on. \<^verbatim>\<open>Promise.all\<close> is fulfilled
  with one output for each request, so \<open>intermediateOutputs ! i\<close> is in range whenever
  \<open>bundles ! i\<close> is (lemma \<open>promise_all_outcome\<close> below).\<close>

function hermesLoop ::
  "('cfg, 'h) env \<Rightarrow> string \<Rightarrow> 'cfg \<Rightarrow> BundleOptions list \<Rightarrow> BundleOutput list \<Rightarrow> nat
     \<Rightarrow> BundleOutput list \<Rightarrow> effect list \<times> (error + BundleOutput list)" where
  "hermesLoop env projectRoot expoConfig bundles intermediateOutputs i bundleOutputs =
     (if i < length bundles then
        (case maybeAddHermesBundleAsync env projectRoot expoConfig i (bundles ! i)
                (intermediateOutputs ! i) of
           (effs, Inl e) \<Rightarrow> (effs, Inl e)
         | (effs, Inr out) \<Rightarrow>
             (case hermesLoop env projectRoot expoConfig bundles intermediateOutputs (Suc i)
                     (bundleOutputs @ [out]) of
                (effs', r) \<Rightarrow> (effs @ effs', r)))
      else ([], Inr bundleOutputs))"
  by pat_completeness auto
termination
  by (relation "measure (\<lambda>(env, projectRoot, expoConfig, bundles, intermediateOutputs, i,
        bundleOutputs). length bundles - i)") auto

section \<open>bundleAsync\<close>

text \<open>
  The body of the \<^verbatim>\<open>try\<close> block (lines 191 to 198): the builds are started in the order
  of the requests, go on concurrently, and the bytecode of the targets is made one after
  the other.
\<close>

definition startAll ::
  "('cfg, 'h) env \<Rightarrow> Metro_BundleOptions \<Rightarrow> 'h MetroConfig \<Rightarrow> MetroDevServerOptions \<Rightarrow> string
     \<Rightarrow> BundleOptions list \<Rightarrow> (effect list \<times> task) list" where
  "startAll env DEFAULT_BUNDLE_OPTIONS config options buildID bundles =
     map (\<lambda>(i, bundle). buildAsync_start env DEFAULT_BUNDLE_OPTIONS config options buildID i bundle)
       (enumerate 0 bundles)"

definition tryBlock ::
  "('cfg, 'h) env \<Rightarrow> nat list \<Rightarrow> Metro_BundleOptions \<Rightarrow> 'h MetroConfig \<Rightarrow> string \<Rightarrow> 'cfg
     \<Rightarrow> MetroDevServerOptions \<Rightarrow> string \<Rightarrow> BundleOptions list
     \<Rightarrow> effect list \<times> (error + BundleOutput list)" where
  "tryBlock env sched DEFAULT_BUNDLE_OPTIONS config projectRoot expoConfig options buildID bundles =
     (let started = startAll env DEFAULT_BUNDLE_OPTIONS config options buildID bundles;
          effs0 = concat (map fst started)
      in case promise_all env buildID sched (map snd started) of
           (effs1, Inl e) \<Rightarrow> (effs0 @ effs1, Inl e)
         | (effs1, Inr intermediateOutputs) \<Rightarrow>
             (case hermesLoop env projectRoot expoConfig bundles intermediateOutputs 0 [] of
                (effs2, r) \<Rightarrow> (effs0 @ effs1 @ effs2, r)))"

text \<open>
  \<^verbatim>\<open>bundleAsync\<close> (lines 93 to 202). The module variable \<^verbatim>\<open>nextBuildID\<close> is passed in and
  handed back; it is a natural number here (the program's number stops growing at
  \<open>2 ^ 53\<close>, after as many calls). The value is the effects up to the moment the promise
  of \<^verbatim>\<open>bundleAsync\<close> settles, what it settles with, and the new \<^verbatim>\<open>nextBuildID\<close>. The
  \<^verbatim>\<open>finally\<close> block runs whenever the \<^verbatim>\<open>try\<close> block was entered.
\<close>

definition bundleAsync ::
  "('cfg, 'h) env \<Rightarrow> nat list \<Rightarrow> nat \<Rightarrow> string \<Rightarrow> 'cfg \<Rightarrow> MetroDevServerOptions
     \<Rightarrow> BundleOptions list \<Rightarrow> effect list \<times> (error + BundleOutput list) \<times> nat" where
  "bundleAsync env sched nextBuildID projectRoot expoConfig options bundles =
     (case importMetroFromProject env projectRoot of
        Some e \<Rightarrow> ([], Inl e, nextBuildID)
      | None \<Rightarrow>
     (case importMetroServerFromProject env projectRoot of
        Inl e \<Rightarrow> ([], Inl e, nextBuildID)
      | Inr DEFAULT_BUNDLE_OPTIONS \<Rightarrow>
     (case loadAsync env projectRoot options of
        Inl e \<Rightarrow> ([], Inl e, nextBuildID)
      | Inr config \<Rightarrow>
     (let buildID = ''bundle_'' @ string_of_nat nextBuildID in
      case runMetro env config of
        Some e \<Rightarrow> ([], Inl e, Suc nextBuildID)
      | None \<Rightarrow>
     (case tryBlock env sched DEFAULT_BUNDLE_OPTIONS config projectRoot expoConfig options
             buildID bundles of
        (effs, r) \<Rightarrow> (effs @ [metroServer_end], r, Suc nextBuildID))))))"

definition effects_of :: "effect list \<times> (error + BundleOutput list) \<times> nat \<Rightarrow> effect list" where
  "effects_of r = fst r"

definition result_of ::
  "effect list \<times> (error + BundleOutput list) \<times> nat \<Rightarrow> error + BundleOutput list" where
  "result_of r = fst (snd r)"

definition nextBuildID_of :: "effect list \<times> (error + BundleOutput list) \<times> nat \<Rightarrow> nat" where
  "nextBuildID_of r = snd (snd r)"

declare promise_all.simps [simp del]
declare hermesLoop.simps [simp del]

text \<open>
  Modelled from the spec: \<^verbatim>\<open>maybeThrowFromInconsistentEngineAsync\<close> of \<^verbatim>\<open>./HermesBundler\<close>,
  which is not among the sources. The spec: it verifies "engine consistency between
  the app's declared configuration and the per-platform bytecode setting (raises a
  fatal, user-facing error on mismatch, naming the config file that must be edited)".
  \<open>platformSetting\<close> is the per-platform bytecode setting found in the project.
\<close>

definition maybeThrowFromInconsistentEngine_spec ::
  "(string \<Rightarrow> Platform \<Rightarrow> bool) \<Rightarrow> string \<Rightarrow> string \<Rightarrow> Platform \<Rightarrow> bool \<Rightarrow> error option" where
  "maybeThrowFromInconsistentEngine_spec platformSetting projectRoot configFilePath p
       isHermesManaged =
     (if platformSetting projectRoot p \<noteq> isHermesManaged
      then Some (InconsistentEngineError configFilePath)
      else None)"

section \<open>Reading a run of bundleAsync\<close>

text \<open>What a task ends with when it is left to run: the output of \<^verbatim>\<open>buildAsync\<close>, or
  the error it rejects with.\<close>

definition assets_outcome ::
  "('cfg, 'h) env \<Rightarrow> nat \<Rightarrow> Metro_BundleOptions \<Rightarrow> string \<Rightarrow> string \<Rightarrow> error + BundleOutput" where
  "assets_outcome env i bundleOptions c m =
     (case getAssets env i bundleOptions of
        Inl e \<Rightarrow> Inl e
      | Inr a \<Rightarrow> Inr \<lparr> code = c, map_str = m, hermesBytecodeBundle = None,
                       hermesSourcemap = None, assets = a \<rparr>)"

fun task_outcome :: "('cfg, 'h) env \<Rightarrow> nat \<Rightarrow> task \<Rightarrow> error + BundleOutput" where
  "task_outcome env i (Fulfilled out) = Inr out"
| "task_outcome env i (GettingAssets bundleOptions c m) = assets_outcome env i bundleOptions c m"
| "task_outcome env i (Building bundleOptions ps) =
     (case build env i bundleOptions of
        Inl e \<Rightarrow> Inl e
      | Inr (c, m) \<Rightarrow> assets_outcome env i bundleOptions c m)"

fun task_onProgress :: "task \<Rightarrow> (nat \<Rightarrow> nat \<Rightarrow> ReportableEvent list) option" where
  "task_onProgress (Building bundleOptions ps) = Some (onProgress bundleOptions)"
| "task_onProgress (GettingAssets bundleOptions c m) = None"
| "task_onProgress (Fulfilled out) = None"

fun is_started :: "effect \<Rightarrow> bool" where
  "is_started (reporter_update (bundle_build_started b d)) = True"
| "is_started e = False"

fun is_progressed :: "effect \<Rightarrow> bool" where
  "is_progressed (reporter_update (bundle_transform_progressed b t n)) = True"
| "is_progressed e = False"

fun is_done :: "effect \<Rightarrow> bool" where
  "is_done (reporter_update (bundle_build_done b)) = True"
| "is_done e = False"

fun reported_buildID :: "effect \<Rightarrow> string option" where
  "reported_buildID (reporter_update ev) = Some (buildID_of ev)"
| "reported_buildID e = None"

text \<open>The minify flag that a started event reports, and the one a build is called with.\<close>

fun started_minify :: "effect \<Rightarrow> bool option" where
  "started_minify (reporter_update (bundle_build_started b d)) = Some (minifyD d)"
| "started_minify e = None"

fun build_minify :: "effect \<Rightarrow> bool option" where
  "build_minify (metroServer_build i bundleOptions) = Some (minifyM bundleOptions)"
| "build_minify e = None"

text \<open>The bytecode compilations of a run: for each, the position of the target and the
  minify argument it is called with.\<close>

fun hermes_call :: "effect \<Rightarrow> (nat \<times> bool option) option" where
  "hermes_call (hermes_build i projectRoot c m mf) = Some (i, mf)"
| "hermes_call e = None"

definition hermes_calls :: "effect list \<Rightarrow> (nat \<times> bool option) list" where
  "hermes_calls effs = List.map_filter hermes_call effs"

text \<open>The effects of the concurrent builds, and those of the bytecode step of the
  target at position \<open>i\<close>.\<close>

fun build_effect :: "effect \<Rightarrow> bool" where
  "build_effect (reporter_update ev) = True"
| "build_effect (metroServer_build i bundleOptions) = True"
| "build_effect (metroServer_build_settled i) = True"
| "build_effect (metroServer_getAssets i bundleOptions) = True"
| "build_effect (metroServer_getAssets_settled i) = True"
| "build_effect e = False"

fun hermes_effect_at :: "nat \<Rightarrow> effect \<Rightarrow> bool" where
  "hermes_effect_at i (engine_check k projectRoot configFilePath p h) = (k = i)"
| "hermes_effect_at i (logger_info tag msg) = True"
| "hermes_effect_at i (hermes_build k projectRoot c m mf) = (k = i)"
| "hermes_effect_at i (hermes_build_settled k) = (k = i)"
| "hermes_effect_at i e = False"

fun hermes_begins :: "nat \<Rightarrow> effect \<Rightarrow> bool" where
  "hermes_begins i (hermes_build k projectRoot c m mf) = (k = i)"
| "hermes_begins i e = False"

fun hermes_completes :: "nat \<Rightarrow> effect \<Rightarrow> bool" where
  "hermes_completes i (hermes_build_settled k) = (k = i)"
| "hermes_completes i e = False"

text \<open>\<open>not_before P Q es\<close>: in \<open>es\<close>, every effect with \<open>Q\<close> comes after some effect with
  \<open>P\<close> (so there is none with \<open>Q\<close> when there is none with \<open>P\<close>).\<close>

fun not_before :: "('a \<Rightarrow> bool) \<Rightarrow> ('a \<Rightarrow> bool) \<Rightarrow> 'a list \<Rightarrow> bool" where
  "not_before P Q [] = True"
| "not_before P Q (x # xs) = (\<not> Q x \<and> (P x \<or> not_before P Q xs))"

text \<open>One for a task that is not fulfilled yet, for counting them.\<close>

definition unfulfilled_count :: "task \<Rightarrow> nat" where
  "unfulfilled_count t = (if output_of t = None then 1 else 0)"

section \<open>runMetroDevServerAsync\<close>

text \<open>
  What \<^verbatim>\<open>createDevServerMiddleware\<close> gives: the connect application \<^verbatim>\<open>middleware\<close>, its
  method \<^verbatim>\<open>middleware.use\<close> (which answers with a middleware) and \<^verbatim>\<open>attachToServer\<close>, which
  answers with the message socket and the \<^verbatim>\<open>reportEvent\<close> of the events socket.
\<close>

record ('m, 's, 'k, 'r) DevServerMiddleware =
  middleware :: 'm
  middleware_use :: "'m \<Rightarrow> 'm"
  attachToServer :: "'s \<Rightarrow> 'k \<times> 'r"

record ('m, 's, 'k, 'r) dev_env =
  dev_loadAsync ::
    "string \<Rightarrow> MetroDevServerOptions \<Rightarrow> error + ('m \<Rightarrow> 's \<Rightarrow> 'm) MetroConfig"
  createDevServerMiddleware :: "nat \<Rightarrow> string list \<Rightarrow> ('m, 's, 'k, 'r) DevServerMiddleware"
  createDevServerAsync :: "string \<Rightarrow> ('m \<Rightarrow> 's \<Rightarrow> 'm) MetroConfig \<Rightarrow> error + 's"

record ('m, 's, 'k) DevServer =
  server :: 's
  middlewareR :: 'm
  messageSocket :: 'k

text \<open>The calls that \<^verbatim>\<open>runMetroDevServerAsync\<close> makes, with their arguments.\<close>

datatype ('m, 's) dev_effect =
    call_createDevServerMiddleware nat "string list"
  | call_createDevServerAsync string "('m \<Rightarrow> 's \<Rightarrow> 'm) MetroConfig"
  | call_attachToServer 's

text \<open>The function assigned to \<^verbatim>\<open>metroConfig.server.enhanceMiddleware\<close> (lines 68 to 73).\<close>

definition enhanceMiddleware ::
  "('m \<Rightarrow> 's \<Rightarrow> 'm) option \<Rightarrow> ('m \<Rightarrow> 'm) \<Rightarrow> 'm \<Rightarrow> 's \<Rightarrow> 'm" where
  "enhanceMiddleware customEnhanceMiddleware use metroMiddleware metroServer =
     (let metroMiddleware' =
        (case customEnhanceMiddleware of
           Some custom \<Rightarrow> custom metroMiddleware metroServer
         | None \<Rightarrow> metroMiddleware)
      in use metroMiddleware')"

text \<open>The configuration after the assignment of line 68: it is the one handed to
  \<^verbatim>\<open>createDevServerAsync\<close>.\<close>

definition mergedConfig ::
  "('m \<Rightarrow> 's \<Rightarrow> 'm) MetroConfig \<Rightarrow> ('m, 's, 'k, 'r) DevServerMiddleware
     \<Rightarrow> ('m \<Rightarrow> 's \<Rightarrow> 'm) MetroConfig" where
  "mergedConfig metroConfig dsm =
     (let customEnhanceMiddleware = server_enhanceMiddleware metroConfig
      in metroConfig \<lparr> server_enhanceMiddleware :=
           Some (enhanceMiddleware customEnhanceMiddleware (middleware_use dsm)) \<rparr>)"

text \<open>\<^verbatim>\<open>runMetroDevServerAsync\<close> (lines 48 to 88): the calls made and the result. The second
  component of a result is the new \<^verbatim>\<open>reporter.reportEvent\<close>, set on line 81.\<close>

definition runMetroDevServerAsync ::
  "('m, 's, 'k, 'r) dev_env \<Rightarrow> string \<Rightarrow> MetroDevServerOptions
     \<Rightarrow> ('m, 's) dev_effect list \<times> (error + (('m, 's, 'k) DevServer \<times> 'r))" where
  "runMetroDevServerAsync env projectRoot options =
     (case dev_loadAsync env projectRoot options of
        Inl e \<Rightarrow> ([], Inl e)
      | Inr metroConfig \<Rightarrow>
          (let dsm = createDevServerMiddleware env (server_port metroConfig)
                       (watchFolders metroConfig);
               calls = [call_createDevServerMiddleware (server_port metroConfig)
                          (watchFolders metroConfig),
                        call_createDevServerAsync projectRoot (mergedConfig metroConfig dsm)]
           in case createDevServerAsync env projectRoot (mergedConfig metroConfig dsm) of
                Inl e \<Rightarrow> (calls, Inl e)
              | Inr srv \<Rightarrow>
                  (case attachToServer dsm srv of
                     (msgSocket, reportEvent) \<Rightarrow>
                       (calls @ [call_attachToServer srv],
                        Inr (\<lparr> server = srv, middlewareR = middleware dsm,
                               messageSocket = msgSocket \<rparr>, reportEvent)))))"

section \<open>attachInspectorProxy\<close>

text \<open>
  The inspector proxy object, as far as the source looks at it: a method that the
  object does not have is \<open>None\<close> (the test \<^verbatim>\<open>'addWebSocketListener' in inspectorProxy\<close>
  is then false); a method it has answers with \<open>Some\<close> error when it throws.
\<close>

record ('s, 'q) InspectorProxy =
  addWebSocketListener :: "('s \<Rightarrow> error option) option"
  createWebSocketListeners :: "('s \<Rightarrow> error option) option"
  processRequest :: 'q

datatype ('s, 'q) proxy_effect =
    call_addWebSocketListener 's
  | call_createWebSocketListeners 's
  | call_middleware_use 'q

fun is_binding :: "('s, 'q) proxy_effect \<Rightarrow> bool" where
  "is_binding (call_addWebSocketListener srv) = True"
| "is_binding (call_createWebSocketListeners srv) = True"
| "is_binding (call_middleware_use q) = False"

text \<open>\<^verbatim>\<open>attachInspectorProxy\<close> (lines 215 to 236); \<open>newInspectorProxy\<close> stands for the import
  of the class from the project and its construction (lines 219 and 220).\<close>

definition attachInspectorProxy ::
  "(string \<Rightarrow> error + ('s, 'q) InspectorProxy) \<Rightarrow> string \<Rightarrow> 's
     \<Rightarrow> ('s, 'q) proxy_effect list \<times> (error + ('s, 'q) InspectorProxy)" where
  "attachInspectorProxy newInspectorProxy projectRoot srv =
     (case newInspectorProxy projectRoot of
        Inl e \<Rightarrow> ([], Inl e)
      | Inr inspectorProxy \<Rightarrow>
          (case addWebSocketListener inspectorProxy of
             Some add \<Rightarrow>
               (case add srv of
                  Some e \<Rightarrow> ([call_addWebSocketListener srv], Inl e)
                | None \<Rightarrow>
                    ([call_addWebSocketListener srv,
                      call_middleware_use (processRequest inspectorProxy)],
                     Inr inspectorProxy))
           | None \<Rightarrow>
               (case createWebSocketListeners inspectorProxy of
                  Some create \<Rightarrow>
                    (case create srv of
                       Some e \<Rightarrow> ([call_createWebSocketListeners srv], Inl e)
                     | None \<Rightarrow>
                         ([call_createWebSocketListeners srv,
                           call_middleware_use (processRequest inspectorProxy)],
                          Inr inspectorProxy))
                | None \<Rightarrow>
                    ([call_middleware_use (processRequest inspectorProxy)],
                     Inr inspectorProxy))))"

section \<open>A small project to run the program on\<close>

text \<open>An environment in which every call succeeds, two requests, and an app
  configuration given as the list of the platforms for which Hermes is enabled.\<close>

definition demo_defaults :: Metro_BundleOptions where
  "demo_defaults =
     \<lparr> bundleType = '''', platformM = web, entryFile = '''', devM = True, minifyM = False,
       inlineSourceMap = False, sourceMapUrlM = None, createModuleIdFactory = (\<lambda>path. 0),
       onProgress = (\<lambda>t n. []), otherOptions = [(''runModule'', ''true'')] \<rparr>"

definition demo_config :: "unit MetroConfig" where
  "demo_config =
     \<lparr> server_port = 8081, server_enhanceMiddleware = None, watchFolders = [],
       serializer_createModuleIdFactory = length \<rparr>"

definition demo_env :: "(Platform list, unit) env" where
  "demo_env =
     \<lparr> importMetroFromProject = (\<lambda>projectRoot. None),
       importMetroServerFromProject = (\<lambda>projectRoot. Inr demo_defaults),
       loadAsync = (\<lambda>projectRoot options. Inr demo_config),
       runMetro = (\<lambda>config. None),
       build_progress = (\<lambda>i bundleOptions. [(1, 2)]),
       build = (\<lambda>i bundleOptions. Inr (''code'', ''map'')),
       getAssets = (\<lambda>i bundleOptions. Inr []),
       isEnableHermesManaged = (\<lambda>expoConfig p. p \<in> set expoConfig),
       getConfigFilePaths =
         (\<lambda>projectRoot. \<lparr> dynamicConfigPath = None, staticConfigPath = Some ''/p/app.json'' \<rparr>),
       maybeThrowFromInconsistentEngineAsync =
         (\<lambda>i projectRoot configFilePath p isHermesManaged. None),
       buildHermesBundleAsync =
         (\<lambda>i projectRoot c m mf. Inr \<lparr> hbc = [198, 31], sourcemap = ''hermes map'' \<rparr>),
       chalk_bold = (\<lambda>s. s) \<rparr>"

definition demo_options :: MetroDevServerOptions where
  "demo_options = \<lparr> quiet = Some True, loadOptions = [] \<rparr>"

definition android_request :: BundleOptions where
  "android_request =
     \<lparr> entryPoint = ''index.js'', platform = android, dev = Some False, minify = None,
       sourceMapUrl = None \<rparr>"

definition ios_request :: BundleOptions where
  "ios_request =
     \<lparr> entryPoint = ''index.js'', platform = ios, dev = None, minify = Some False,
       sourceMapUrl = None \<rparr>"


definition failing_env :: "(Platform list, unit) env" where
  "failing_env =
     demo_env \<lparr> build := (\<lambda>i bundleOptions.
        if i = 1 then Inl (Error ''SyntaxError'') else Inr (''code'', ''map'')) \<rparr>"

definition mismatch_env :: "(Platform list, unit) env" where
  "mismatch_env =
     demo_env \<lparr> maybeThrowFromInconsistentEngineAsync :=
       (\<lambda>i. maybeThrowFromInconsistentEngine_spec (\<lambda>projectRoot p. False)) \<rparr>"

definition loud_options :: MetroDevServerOptions where
  "loud_options = \<lparr> quiet = None, loadOptions = [] \<rparr>"

definition demo_dev_env :: "(string list, unit, unit, unit) dev_env" where
  "demo_dev_env =
     \<lparr> dev_loadAsync = (\<lambda>projectRoot options. Inr
         \<lparr> server_port = 8081,
           server_enhanceMiddleware = Some (\<lambda>metroMiddleware metroServer. ''custom'' # metroMiddleware),
           watchFolders = [], serializer_createModuleIdFactory = length \<rparr>),
       createDevServerMiddleware = (\<lambda>port folders.
         \<lparr> middleware = [''base''], middleware_use = (\<lambda>handler. ''base'' # handler),
           attachToServer = (\<lambda>srv. ((), ())) \<rparr>),
       createDevServerAsync = (\<lambda>projectRoot config. Inr ()) \<rparr>"

definition both_proxy :: "(unit, string) InspectorProxy" where
  "both_proxy =
     \<lparr> addWebSocketListener = Some (\<lambda>srv. None),
       createWebSocketListeners = Some (\<lambda>srv. None),
       processRequest = ''processRequest'' \<rparr>"

definition bare_proxy :: "(unit, string) InspectorProxy" where
  "bare_proxy =
     \<lparr> addWebSocketListener = None, createWebSocketListeners = None,
       processRequest = ''processRequest'' \<rparr>"

section \<open>Lemmas on the concurrent builds\<close>


lemma pending_empty_iff: "pending tasks = [] \<longleftrightarrow> (\<forall>t\<in>set tasks. output_of t \<noteq> None)"
  by (auto simp: pending_def filter_empty_conv all_set_conv_all_nth)

lemma pick_pending:
  assumes "pending tasks \<noteq> []"
  shows "pick sched tasks < length tasks" and "output_of (tasks ! pick sched tasks) = None"
proof -
  have "pick sched tasks \<in> set (pending tasks)"
    unfolding pick_def using assms by (intro nth_mem) simp
  then show "pick sched tasks < length tasks" and "output_of (tasks ! pick sched tasks) = None"
    by (auto simp: pending_def)
qed

lemma map_filter_all_fulfilled:
  assumes "\<forall>t\<in>set tasks. output_of t \<noteq> None"
  shows "length (List.map_filter output_of tasks) = length tasks"
    and "i < length tasks \<Longrightarrow> output_of (tasks ! i) = Some (List.map_filter output_of tasks ! i)"
proof -
  have *: "List.map_filter output_of tasks = map (the \<circ> output_of) tasks"
    using assms by (induction tasks) auto
  show "length (List.map_filter output_of tasks) = length tasks"
    by (simp add: *)
  show "output_of (tasks ! i) = Some (List.map_filter output_of tasks ! i)" if "i < length tasks"
    using that assms by (auto simp: *)
qed

lemma output_of_outcome: "output_of t = Some out \<Longrightarrow> task_outcome env i t = Inr out"
  by (cases t) auto

lemma step_outcome:
  "buildAsync_step env b i t = (effs, Inr t') \<Longrightarrow> task_outcome env i t' = task_outcome env i t"
  by (cases "(env, b, i, t)" rule: buildAsync_step.cases)
     (auto simp: assets_outcome_def split: sum.splits prod.splits)

lemma step_rejects:
  "buildAsync_step env b i t = (effs, Inl e) \<Longrightarrow> task_outcome env i t = Inl e"
  by (cases "(env, b, i, t)" rule: buildAsync_step.cases)
     (auto simp: assets_outcome_def split: sum.splits prod.splits)

lemma promise_all_outcome:
  "promise_all env b sched tasks = (effs, r) \<Longrightarrow>
     (case r of
        Inr outs \<Rightarrow> length outs = length tasks \<and>
                    (\<forall>i<length tasks. task_outcome env i (tasks ! i) = Inr (outs ! i))
      | Inl e \<Rightarrow> (\<exists>i<length tasks. task_outcome env i (tasks ! i) = Inl e))"
proof (induction env b sched tasks arbitrary: effs r rule: promise_all.induct)
  case (1 env b sched tasks)
  show ?case
  proof (cases "pending tasks = []")
    case True
    then have all: "\<forall>t\<in>set tasks. output_of t \<noteq> None"
      by (simp add: pending_empty_iff)
    from True "1.prems" have r: "r = Inr (List.map_filter output_of tasks)"
      by (simp add: promise_all.simps)
    show ?thesis
      using map_filter_all_fulfilled [OF all] by (auto simp: r intro: output_of_outcome)
  next
    case False
    let ?i = "pick sched tasks"
    note pk = pick_pending [OF False, of sched]
    obtain effs1 r1 where step: "buildAsync_step env b ?i (tasks ! ?i) = (effs1, r1)"
      by (cases "buildAsync_step env b ?i (tasks ! ?i)")
    show ?thesis
    proof (cases r1)
      case (Inl e)
      with False step "1.prems" have "r = Inl e"
        by (simp add: promise_all.simps)
      moreover have "task_outcome env ?i (tasks ! ?i) = Inl e"
        using step Inl by (auto dest: step_rejects)
      ultimately show ?thesis using pk(1) by auto
    next
      case (Inr t)
      obtain effs2 r2 where rec: "promise_all env b (tl sched) (tasks[?i := t]) = (effs2, r2)"
        by (cases "promise_all env b (tl sched) (tasks[?i := t])")
      from False step Inr rec "1.prems" have r: "r = r2"
        by (simp add: promise_all.simps)
      have same: "task_outcome env j ((tasks[?i := t]) ! j) = task_outcome env j (tasks ! j)"
        if "j < length tasks" for j
        using that step Inr by (cases "j = ?i") (auto dest: step_outcome)
      from "1.IH" [OF False step [symmetric] Inr rec]
      show ?thesis
        unfolding r by (cases r2) (auto simp: same)
    qed
  qed
qed


lemma promise_all_effects:
  assumes step: "\<And>i t effs r. I t \<Longrightarrow> buildAsync_step env b i t = (effs, r) \<Longrightarrow>
                   (\<forall>e\<in>set effs. P e) \<and> (\<forall>t'. r = Inr t' \<longrightarrow> I t')"
  shows "\<forall>t\<in>set tasks. I t \<Longrightarrow> \<forall>e\<in>set (fst (promise_all env b sched tasks)). P e"
  using step
proof (induction env b sched tasks rule: promise_all.induct)
  case (1 env' b' sched tasks)
  note allI = "1.prems"(1) and stp = "1.prems"(2)
  show ?case
  proof (cases "pending tasks = []")
    case True
    then show ?thesis by (simp add: promise_all.simps)
  next
    case False
    let ?i = "pick sched tasks"
    note pk = pick_pending [OF False, of sched]
    obtain effs1 r1 where st: "buildAsync_step env' b' ?i (tasks ! ?i) = (effs1, r1)"
      by (cases "buildAsync_step env' b' ?i (tasks ! ?i)")
    have inv: "I (tasks ! ?i)"
      using allI pk(1) by simp
    show ?thesis
    proof (cases r1)
      case (Inl e)
      with False st have "fst (promise_all env' b' sched tasks) = effs1"
        by (simp add: promise_all.simps)
      then show ?thesis
        using stp [OF inv st] by simp
    next
      case (Inr t)
      obtain effs2 r2 where rec: "promise_all env' b' (tl sched) (tasks[?i := t]) = (effs2, r2)"
        by (cases "promise_all env' b' (tl sched) (tasks[?i := t])")
      from False st Inr rec have eq: "fst (promise_all env' b' sched tasks) = effs1 @ effs2"
        by (simp add: promise_all.simps)
      have "I t"
        using stp [OF inv st] Inr by simp
      then have all: "\<forall>t\<in>set (tasks[?i := t]). I t"
        using allI by (auto dest: set_update_subset_insert [THEN subsetD])
      have "\<forall>e\<in>set effs2. P e"
        using "1.IH" [OF False st [symmetric] Inr all stp] rec by simp
      then show ?thesis
        using stp [OF inv st] by (simp add: eq ball_Un)
    qed
  qed
qed


lemma length_pending:
  "length (pending tasks) = sum_list (map (\<lambda>t. if output_of t = None then 1 else 0) tasks)"
proof -
  let ?Q = "\<lambda>t. output_of t = None"
  have "filter ?Q tasks = filter ?Q (map (nth tasks) [0..<length tasks])"
    by (simp add: map_nth)
  also have "\<dots> = map (nth tasks) (pending tasks)"
    by (simp add: filter_map pending_def comp_def)
  finally have "length (pending tasks) = length (filter ?Q tasks)"
    by (metis length_map)
  also have "\<dots> = sum_list (map (\<lambda>t. if ?Q t then 1 else 0) tasks)"
    by (induction tasks) auto
  finally show ?thesis .
qed

lemma length_pending_update:
  assumes "i < length tasks" and "output_of (tasks ! i) = None"
  shows "length (pending tasks) =
           length (pending (tasks[i := t])) + (if output_of t = None then 0 else 1)"
proof -
  have lp: "length (pending ts) = sum_list (map unfulfilled_count ts)" for ts
    unfolding unfulfilled_count_def by (rule length_pending)
  have mem: "unfulfilled_count (tasks ! i) \<in> set (map unfulfilled_count tasks)"
    using assms(1) by (metis length_map nth_map nth_mem)
  have "unfulfilled_count (tasks ! i) \<le> sum_list (map unfulfilled_count tasks)"
    using mem by (simp add: member_le_sum_list)
  then have "sum_list (map unfulfilled_count (tasks[i := t])) + unfulfilled_count (tasks ! i)
               = sum_list (map unfulfilled_count tasks) + unfulfilled_count t"
    using assms(1) by (simp add: map_update sum_list_update)
  moreover have "unfulfilled_count (tasks ! i) = 1"
    using assms(2) by (simp add: unfulfilled_count_def)
  moreover have "unfulfilled_count t = (if output_of t = None then 1 else 0)"
    by (simp add: unfulfilled_count_def)
  ultimately show ?thesis
    unfolding lp by (cases "output_of t = None") simp_all
qed


lemma step_done:
  assumes "output_of t = None" and "buildAsync_step env b i t = (effs, Inr t')"
    and "\<forall>f. task_onProgress t = Some f \<longrightarrow> (\<forall>x y. \<forall>ev\<in>set (f x y). \<not> is_done (reporter_update ev))"
  shows "length (filter is_done effs) = (if output_of t' = None then 0 else 1)"
  using assms
  by (cases "(env, b, i, t)" rule: buildAsync_step.cases)
     (auto simp: filter_map comp_def filter_empty_conv split: sum.splits prod.splits)


lemma progressCallback_events:
  "ev \<in> set (progressCallback options buildID x y) \<Longrightarrow>
     ev = bundle_transform_progressed buildID x y \<and> quiet options \<noteq> Some True"
  by (auto simp: progressCallback_def js_not_def split: if_splits option.splits)

lemma step_callback:
  assumes "\<forall>f. task_onProgress t = Some f \<longrightarrow> f = cb"
    and "buildAsync_step env b i t = (effs, Inr t')"
  shows "\<forall>f. task_onProgress t' = Some f \<longrightarrow> f = cb"
  using assms
  by (cases "(env, b, i, t)" rule: buildAsync_step.cases) (auto split: sum.splits prod.splits)

lemma step_effects:
  assumes "\<forall>f. task_onProgress t = Some f \<longrightarrow> f = progressCallback options b"
    and "buildAsync_step env b i t = (effs, r)" and "e \<in> set effs"
  shows "build_effect e \<and> \<not> is_started e \<and> (is_progressed e \<longrightarrow> quiet options \<noteq> Some True)
           \<and> (\<forall>ev. e = reporter_update ev \<longrightarrow> buildID_of ev = b)
           \<and> (\<forall>k bo. e \<noteq> metroServer_build k bo)"
  using assms
  by (cases "(env, b, i, t)" rule: buildAsync_step.cases)
     (auto simp: progressCallback_def js_not_def split: sum.splits prod.splits if_splits option.splits)

lemma promise_all_done:
  assumes "\<forall>t\<in>set tasks. \<forall>f. task_onProgress t = Some f \<longrightarrow> f = progressCallback options b"
    and "promise_all env b sched tasks = (effs, Inr outs)"
  shows "length (filter is_done effs) = length (pending tasks)"
  using assms
proof (induction env b sched tasks arbitrary: effs rule: promise_all.induct)
  case (1 env b sched tasks)
  note allI = "1.prems"(1) and run = "1.prems"(2)
  show ?case
  proof (cases "pending tasks = []")
    case True
    with run show ?thesis by (simp add: promise_all.simps)
  next
    case False
    let ?i = "pick sched tasks"
    note pk = pick_pending [OF False, of sched]
    obtain effs1 r1 where st: "buildAsync_step env b ?i (tasks ! ?i) = (effs1, r1)"
      by (cases "buildAsync_step env b ?i (tasks ! ?i)")
    have inv: "\<forall>f. task_onProgress (tasks ! ?i) = Some f \<longrightarrow> f = progressCallback options b"
      using allI nth_mem [OF pk(1)] by blast
    show ?thesis
    proof (cases r1)
      case (Inl e)
      with False st run show ?thesis by (simp add: promise_all.simps)
    next
      case (Inr t)
      obtain effs2 r2 where rec: "promise_all env b (tl sched) (tasks[?i := t]) = (effs2, r2)"
        by (cases "promise_all env b (tl sched) (tasks[?i := t])")
      from False st Inr rec run have eq: "effs = effs1 @ effs2" and r2: "r2 = Inr outs"
        by (simp_all add: promise_all.simps)
      have "\<forall>f. task_onProgress t = Some f \<longrightarrow> f = progressCallback options b"
        using step_callback [OF inv] st Inr by simp
      then have all: "\<forall>t\<in>set (tasks[?i := t]).
                        \<forall>f. task_onProgress t = Some f \<longrightarrow> f = progressCallback options b"
        using allI by (auto dest: set_update_subset_insert [THEN subsetD])
      have ih: "length (filter is_done effs2) = length (pending (tasks[?i := t]))"
        using "1.IH" [OF False st [symmetric] Inr all] rec r2 by simp
      have nd: "\<forall>f. task_onProgress (tasks ! ?i) = Some f \<longrightarrow>
                  (\<forall>x y. \<forall>ev\<in>set (f x y). \<not> is_done (reporter_update ev))"
        using inv by (auto simp: progressCallback_def split: if_splits)
      have "length (filter is_done effs1) = (if output_of t = None then 0 else 1)"
        using step_done [OF pk(2) st [unfolded Inr] nd] .
      then show ?thesis
        using length_pending_update [OF pk, of t] ih by (simp add: eq)
    qed
  qed
qed

section \<open>Lemmas on the bytecode loop\<close>

lemma maybeAdd_effects:
  assumes "e \<in> set (fst (maybeAddHermesBundleAsync env pr cfg i bundle out))"
  shows "hermes_effect_at i e \<and> \<not> build_effect e \<and> e \<noteq> metroServer_end
           \<and> (\<forall>k p c m mf. e = hermes_build k p c m mf \<longrightarrow>
                  mf = minify bundle \<and> c = code out \<and> m = map_str out \<and> p = pr
                  \<and> isEnableHermesManaged env cfg (platform bundle))"
  using assms
  by (auto simp: maybeAddHermesBundleAsync_def Let_def split: option.splits if_splits sum.splits)

lemma hermesLoop_effects:
  "e \<in> set (fst (hermesLoop env pr cfg bundles mids i acc)) \<Longrightarrow>
     \<exists>k. i \<le> k \<and> k < length bundles \<and>
         e \<in> set (fst (maybeAddHermesBundleAsync env pr cfg k (bundles ! k) (mids ! k)))"
proof (induction env pr cfg bundles mids i acc rule: hermesLoop.induct)
  case (1 env pr cfg bundles mids i acc)
  show ?case
  proof (cases "i < length bundles")
    case False
    with "1.prems" show ?thesis by (simp add: hermesLoop.simps)
  next
    case True
    obtain effs1 r1 where m: "maybeAddHermesBundleAsync env pr cfg i (bundles ! i) (mids ! i) = (effs1, r1)"
      by (cases "maybeAddHermesBundleAsync env pr cfg i (bundles ! i) (mids ! i)")
    show ?thesis
    proof (cases r1)
      case (Inl err)
      with True m "1.prems" have "e \<in> set effs1"
        by (simp add: hermesLoop.simps)
      then show ?thesis using True m by force
    next
      case (Inr out)
      obtain effs2 r2 where rec:
        "hermesLoop env pr cfg bundles mids (Suc i) (acc @ [out]) = (effs2, r2)"
        by (cases "hermesLoop env pr cfg bundles mids (Suc i) (acc @ [out])")
      from True m Inr rec "1.prems" have "e \<in> set effs1 \<or> e \<in> set effs2"
        by (simp add: hermesLoop.simps)
      then show ?thesis
      proof
        assume "e \<in> set effs1"
        then show ?thesis using True m by force
      next
        assume "e \<in> set effs2"
        then obtain k where "Suc i \<le> k" "k < length bundles"
          "e \<in> set (fst (maybeAddHermesBundleAsync env pr cfg k (bundles ! k) (mids ! k)))"
          using "1.IH" [OF True m [symmetric] Inr] rec by auto
        then show ?thesis by (intro exI [of _ k]) simp
      qed
    qed
  qed
qed


lemma hermesLoop_unfold:
  assumes "i < length bundles"
  obtains (fails) effs1 e where
      "maybeAddHermesBundleAsync env pr cfg i (bundles ! i) (mids ! i) = (effs1, Inl e)"
      "hermesLoop env pr cfg bundles mids i acc = (effs1, Inl e)"
  | (goes_on) effs1 out effs2 r where
      "maybeAddHermesBundleAsync env pr cfg i (bundles ! i) (mids ! i) = (effs1, Inr out)"
      "hermesLoop env pr cfg bundles mids (Suc i) (acc @ [out]) = (effs2, r)"
      "hermesLoop env pr cfg bundles mids i acc = (effs1 @ effs2, r)"
proof -
  obtain effs1 r1 where m: "maybeAddHermesBundleAsync env pr cfg i (bundles ! i) (mids ! i) = (effs1, r1)"
    by (cases "maybeAddHermesBundleAsync env pr cfg i (bundles ! i) (mids ! i)")
  show thesis
  proof (cases r1)
    case (Inl e)
    with assms m show thesis
      by (intro fails [of effs1 e]) (simp_all add: hermesLoop.simps)
  next
    case (Inr out)
    obtain effs2 r where rec: "hermesLoop env pr cfg bundles mids (Suc i) (acc @ [out]) = (effs2, r)"
      by (cases "hermesLoop env pr cfg bundles mids (Suc i) (acc @ [out])")
    with assms m Inr show thesis
      by (intro goes_on [of effs1 out effs2 r]) (simp_all add: hermesLoop.simps)
  qed
qed

lemma hermesLoop_outputs:
  "hermesLoop env pr cfg bundles mids i acc = (effs, Inr outs) \<Longrightarrow>
     length outs = length acc + (length bundles - i) \<and>
     (\<forall>k<length acc. outs ! k = acc ! k) \<and>
     (\<forall>k. i \<le> k \<and> k < length bundles \<longrightarrow>
        snd (maybeAddHermesBundleAsync env pr cfg k (bundles ! k) (mids ! k))
          = Inr (outs ! (length acc + (k - i))))"
proof (induction env pr cfg bundles mids i acc arbitrary: effs rule: hermesLoop.induct)
  case (1 env pr cfg bundles mids i acc)
  show ?case
  proof (cases "i < length bundles")
    case False
    with "1.prems" show ?thesis by (auto simp: hermesLoop.simps)
  next
    case True
    from True show ?thesis
    proof (cases rule: hermesLoop_unfold [where env = env and pr = pr and cfg = cfg
              and mids = mids and acc = acc])
      case (fails effs1 e)
      with "1.prems" show ?thesis by simp
    next
      case (goes_on effs1 out effs2 r)
      with "1.prems" have r: "r = Inr outs" by simp
      note ih = "1.IH" [OF True goes_on(1) [symmetric] refl goes_on(2) [unfolded r]]
      have len: "length outs = length acc + (length bundles - i)"
        using ih True by simp
      have acc: "\<forall>k<length acc. outs ! k = acc ! k"
        using ih by (auto simp: nth_append split: if_splits)
      have at_i: "outs ! length acc = out"
        using ih by (auto simp: nth_append split: if_splits)
      have "snd (maybeAddHermesBundleAsync env pr cfg k (bundles ! k) (mids ! k))
              = Inr (outs ! (length acc + (k - i)))"
        if "i \<le> k" "k < length bundles" for k
      proof (cases "k = i")
        case True
        then show ?thesis using goes_on(1) at_i by simp
      next
        case False
        with that have "Suc i \<le> k" by simp
        moreover have "length (acc @ [out]) + (k - Suc i) = length acc + (k - i)"
          using \<open>Suc i \<le> k\<close> by simp
        ultimately show ?thesis using ih that by metis
      qed
      with len acc show ?thesis by blast
    qed
  qed
qed


lemma hermesLoop_fails:
  "i \<le> k \<Longrightarrow> k < length bundles \<Longrightarrow>
   snd (maybeAddHermesBundleAsync env pr cfg k (bundles ! k) (mids ! k)) = Inl e \<Longrightarrow>
     \<exists>e'. snd (hermesLoop env pr cfg bundles mids i acc) = Inl e'"
proof (induction env pr cfg bundles mids i acc rule: hermesLoop.induct)
  case (1 env pr cfg bundles mids i acc)
  from "1.prems" have True: "i < length bundles" by simp
  from True show ?case
  proof (cases rule: hermesLoop_unfold [where env = env and pr = pr and cfg = cfg
            and mids = mids and acc = acc])
    case (fails effs1 e1)
    then show ?thesis by simp
  next
    case (goes_on effs1 out effs2 r)
    with "1.prems" have "k \<noteq> i" by auto
    with "1.prems" have "Suc i \<le> k" by simp
    from "1.IH" [OF True goes_on(1) [symmetric] refl this "1.prems"(2,3)] goes_on
    show ?thesis by simp
  qed
qed

lemma hermesLoop_stops_at:
  "engine_check k a b c d \<in> set (fst (hermesLoop env pr cfg bundles mids i acc)) \<Longrightarrow>
   snd (maybeAddHermesBundleAsync env pr cfg k (bundles ! k) (mids ! k)) = Inl e \<Longrightarrow>
     snd (hermesLoop env pr cfg bundles mids i acc) = Inl e"
proof (induction env pr cfg bundles mids i acc rule: hermesLoop.induct)
  case (1 env pr cfg bundles mids i acc)
  show ?case
  proof (cases "i < length bundles")
    case False
    with "1.prems" show ?thesis by (simp add: hermesLoop.simps)
  next
    case True
    have here: "k = i" if "engine_check k a b c d \<in> set effs1"
      and "maybeAddHermesBundleAsync env pr cfg i (bundles ! i) (mids ! i) = (effs1, r1)"
      for effs1 r1
      using maybeAdd_effects [of "engine_check k a b c d" env pr cfg i "bundles ! i" "mids ! i"] that
      by simp
    from True show ?thesis
    proof (cases rule: hermesLoop_unfold [where env = env and pr = pr and cfg = cfg
              and mids = mids and acc = acc])
      case (fails effs1 e1)
      with "1.prems" here [of effs1 "Inl e1"] show ?thesis by simp
    next
      case (goes_on effs1 out effs2 r)
      have "engine_check k a b c d \<notin> set effs1"
        using here [of effs1 "Inr out"] goes_on(1) "1.prems"(2) by auto
      with "1.prems"(1) goes_on(3) have "engine_check k a b c d \<in> set effs2" by simp
      with "1.IH" [OF True goes_on(1) [symmetric] refl _ "1.prems"(2)] goes_on
      show ?thesis by simp
    qed
  qed
qed

lemma hermesLoop_reaches:
  "i \<le> k \<Longrightarrow> k < length bundles \<Longrightarrow>
   (\<forall>j. i \<le> j \<and> j < k \<longrightarrow>
      (\<exists>out. snd (maybeAddHermesBundleAsync env pr cfg j (bundles ! j) (mids ! j)) = Inr out)) \<Longrightarrow>
     set (fst (maybeAddHermesBundleAsync env pr cfg k (bundles ! k) (mids ! k)))
       \<subseteq> set (fst (hermesLoop env pr cfg bundles mids i acc))"
proof (induction env pr cfg bundles mids i acc rule: hermesLoop.induct)
  case (1 env pr cfg bundles mids i acc)
  from "1.prems" have True: "i < length bundles" by simp
  from True show ?case
  proof (cases rule: hermesLoop_unfold [where env = env and pr = pr and cfg = cfg
            and mids = mids and acc = acc])
    case (fails effs1 e1)
    with "1.prems" have "k = i" by (cases "k = i") auto
    with fails show ?thesis by simp
  next
    case (goes_on effs1 out effs2 r)
    show ?thesis
    proof (cases "k = i")
      case True
      with goes_on show ?thesis by simp
    next
      case False
      with "1.prems" have le: "Suc i \<le> k" by simp
      have "\<forall>j. Suc i \<le> j \<and> j < k \<longrightarrow>
              (\<exists>out. snd (maybeAddHermesBundleAsync env pr cfg j (bundles ! j) (mids ! j)) = Inr out)"
        using "1.prems"(3) by simp
      from "1.IH" [OF True goes_on(1) [symmetric] refl le "1.prems"(2) this] goes_on
      show ?thesis by auto
    qed
  qed
qed

lemma not_before_append_later:
  "\<forall>x\<in>set xs. \<not> Q x \<Longrightarrow> not_before P Q ys \<Longrightarrow> not_before P Q (xs @ ys)"
  by (induction xs) auto

lemma not_before_append_found:
  "\<forall>x\<in>set xs. \<not> Q x \<Longrightarrow> \<exists>x\<in>set xs. P x \<Longrightarrow> not_before P Q (xs @ ys)"
  by (induction xs) auto

lemma not_before_none: "\<forall>x\<in>set xs. \<not> Q x \<Longrightarrow> not_before P Q xs"
  by (induction xs) auto

lemma not_before_iff:
  "not_before P Q xs \<longleftrightarrow> (\<forall>n<length xs. Q (xs ! n) \<longrightarrow> (\<exists>m<n. P (xs ! m)))"
proof (induction xs)
  case Nil
  then show ?case by simp
next
  case (Cons x xs)
  have "(\<forall>n<length (x # xs). Q ((x # xs) ! n) \<longrightarrow> (\<exists>m<n. P ((x # xs) ! m)))
          \<longleftrightarrow> \<not> Q x \<and> (\<forall>n<length xs. Q (xs ! n) \<longrightarrow> (P x \<or> (\<exists>m<n. P (xs ! m))))"
    by (simp add: All_less_Suc2 Ex_less_Suc2)
  also have "\<dots> \<longleftrightarrow> \<not> Q x \<and> (P x \<or> (\<forall>n<length xs. Q (xs ! n) \<longrightarrow> (\<exists>m<n. P (xs ! m))))"
    by blast
  finally show ?case
    using Cons.IH by simp
qed


lemma hermesLoop_sequential:
  "i0 \<le> i \<Longrightarrow> i < j \<Longrightarrow> isEnableHermesManaged env cfg (platform (bundles ! i)) \<Longrightarrow>
     not_before (hermes_completes i) (hermes_begins j)
       (fst (hermesLoop env pr cfg bundles mids i0 acc))"
proof (induction env pr cfg bundles mids i0 acc rule: hermesLoop.induct)
  case (1 env pr cfg bundles mids i0 acc)
  show ?case
  proof (cases "i0 < length bundles")
    case False
    then show ?thesis by (simp add: hermesLoop.simps)
  next
    case True
    have noQ: "\<forall>x\<in>set effs1. \<not> hermes_begins j x"
      if m: "maybeAddHermesBundleAsync env pr cfg i0 (bundles ! i0) (mids ! i0) = (effs1, r1)"
      for effs1 r1
    proof
      fix x assume "x \<in> set effs1"
      then have "hermes_effect_at i0 x"
        using maybeAdd_effects [of x env pr cfg i0 "bundles ! i0" "mids ! i0"] m by simp
      with "1.prems" show "\<not> hermes_begins j x"
        by (cases x) auto
    qed
    from True show ?thesis
    proof (cases rule: hermesLoop_unfold [where env = env and pr = pr and cfg = cfg
              and mids = mids and acc = acc])
      case (fails effs1 e)
      with noQ [OF fails(1)] show ?thesis by (simp add: not_before_none)
    next
      case (goes_on effs1 out effs2 r)
      show ?thesis
      proof (cases "i0 = i")
        case True
        with goes_on(1) "1.prems"(3) have "hermes_build_settled i \<in> set effs1"
          by (auto simp: maybeAddHermesBundleAsync_def Let_def
                   split: option.splits if_splits sum.splits)
        then have "\<exists>x\<in>set effs1. hermes_completes i x"
          by (intro bexI [of _ "hermes_build_settled i"]) simp_all
        with noQ [OF goes_on(1)] goes_on(3) show ?thesis
          by (simp add: not_before_append_found)
      next
        case False
        with "1.prems" have "Suc i0 \<le> i" by simp
        from "1.IH" [OF True goes_on(1) [symmetric] refl this "1.prems"(2,3)] goes_on(2)
        have "not_before (hermes_completes i) (hermes_begins j) effs2" by simp
        with noQ [OF goes_on(1)] goes_on(3) show ?thesis
          by (simp add: not_before_append_later)
      qed
    qed
  qed
qed

section \<open>Lemmas on the whole of bundleAsync\<close>

lemma startAll_tasks:
  "map snd (startAll env d config options b bundles) =
     map (\<lambda>(i, bundle). Building (bundleOptions_of d config options b bundle)
            (build_progress env i (bundleOptions_of d config options b bundle)))
       (enumerate 0 bundles)"
  by (simp add: startAll_def buildAsync_start_def Let_def case_prod_unfold)

lemma startAll_effects:
  "concat (map fst (startAll env d config options b bundles)) =
     concat (map (\<lambda>(i, bundle).
                [reporter_update (startedEvent b (bundleOptions_of d config options b bundle) bundle),
                 metroServer_build i (bundleOptions_of d config options b bundle)])
       (enumerate 0 bundles))"
  by (simp add: startAll_def buildAsync_start_def Let_def case_prod_unfold comp_def)

lemma startAll_task_nth:
  assumes "i < length bundles"
  shows "map snd (startAll env d config options b bundles) ! i =
           Building (bundleOptions_of d config options b (bundles ! i))
             (build_progress env i (bundleOptions_of d config options b (bundles ! i)))"
  using assms by (simp add: startAll_tasks nth_enumerate_eq)

lemma bundleAsync_cases:
  assumes "importMetroFromProject env pr = None"
    and "importMetroServerFromProject env pr = Inr d"
    and "loadAsync env pr options = Inr config"
    and "runMetro env config = None"
    and "b = ''bundle_'' @ string_of_nat n"
    and "effs0 = concat (map fst (startAll env d config options b bundles))"
    and "tasks = map snd (startAll env d config options b bundles)"
  obtains (build_fails) effs1 e where
      "promise_all env b sched tasks = (effs1, Inl e)"
      "bundleAsync env sched n pr cfg options bundles
         = (effs0 @ effs1 @ [metroServer_end], Inl e, Suc n)"
  | (built) effs1 mids effs2 r where
      "promise_all env b sched tasks = (effs1, Inr mids)"
      "hermesLoop env pr cfg bundles mids 0 [] = (effs2, r)"
      "bundleAsync env sched n pr cfg options bundles
         = (effs0 @ effs1 @ effs2 @ [metroServer_end], r, Suc n)"
proof -
  obtain effs1 r1 where pa: "promise_all env b sched tasks = (effs1, r1)"
    by (cases "promise_all env b sched tasks")
  show thesis
  proof (cases r1)
    case (Inl e)
    show thesis
      by (rule build_fails [of effs1 e])
         (use assms pa Inl in \<open>simp_all add: bundleAsync_def tryBlock_def Let_def\<close>)
  next
    case (Inr mids)
    obtain effs2 r where hl: "hermesLoop env pr cfg bundles mids 0 [] = (effs2, r)"
      by (cases "hermesLoop env pr cfg bundles mids 0 []")
    show thesis
      by (rule built [of effs1 mids effs2 r])
         (use assms pa Inr hl in \<open>simp_all add: bundleAsync_def tryBlock_def Let_def\<close>)
  qed
qed



lemma startAll_callbacks:
  "\<forall>t\<in>set (map snd (startAll env d config options b bundles)).
     \<forall>f. task_onProgress t = Some f \<longrightarrow> f = progressCallback options b"
  by (auto simp: startAll_tasks bundleOptions_of_def)

lemma startAll_pending:
  "length (pending (map snd (startAll env d config options b bundles))) = length bundles"
proof -
  have "map (\<lambda>t. if output_of t = None then 1 else (0::nat))
          (map snd (startAll env d config options b bundles)) = replicate (length bundles) 1"
    by (simp add: startAll_tasks case_prod_unfold comp_def map_replicate_const)
  then show ?thesis
    by (simp add: length_pending sum_list_replicate)
qed

lemma promise_all_started:
  assumes "e \<in> set (fst (promise_all env b sched (map snd (startAll env d config options b bundles))))"
  shows "build_effect e \<and> \<not> is_started e \<and> (is_progressed e \<longrightarrow> quiet options \<noteq> Some True)
           \<and> (\<forall>ev. e = reporter_update ev \<longrightarrow> buildID_of ev = b)
           \<and> (\<forall>k bo. e \<noteq> metroServer_build k bo)"
proof -
  let ?I = "\<lambda>t. \<forall>f. task_onProgress t = Some f \<longrightarrow> f = progressCallback options b"
  let ?P = "\<lambda>e. build_effect e \<and> \<not> is_started e \<and> (is_progressed e \<longrightarrow> quiet options \<noteq> Some True)
           \<and> (\<forall>ev. e = reporter_update ev \<longrightarrow> buildID_of ev = b)
           \<and> (\<forall>k bo. e \<noteq> metroServer_build k bo)"
  have "\<forall>e\<in>set (fst (promise_all env b sched (map snd (startAll env d config options b bundles)))). ?P e"
  proof (rule promise_all_effects [where I = ?I and P = ?P])
    fix i t effs r
    assume I: "?I t" and st: "buildAsync_step env b i t = (effs, r)"
    show "(\<forall>e\<in>set effs. ?P e) \<and> (\<forall>t'. r = Inr t' \<longrightarrow> ?I t')"
    proof (rule conjI)
      show "\<forall>e\<in>set effs. ?P e"
      proof (rule ballI)
        fix e assume "e \<in> set effs"
        then show "?P e" by (rule step_effects [OF I st])
      qed
      show "\<forall>t'. r = Inr t' \<longrightarrow> ?I t'"
      proof (intro allI impI)
        fix t' f assume "r = Inr t'" and "task_onProgress t' = Some f"
        with step_callback [OF I, of env b i effs t'] st
        show "f = progressCallback options b" by simp
      qed
    qed
  next
    show "\<forall>t\<in>set (map snd (startAll env d config options b bundles)). ?I t"
      by (rule startAll_callbacks)
  qed
  then show ?thesis using assms by (rule bspec)
qed

lemma concat_pairs:
  "length (concat (map (\<lambda>x. [f x, g x]) xs)) = 2 * length xs"
  "i < length xs \<Longrightarrow> concat (map (\<lambda>x. [f x, g x]) xs) ! (2 * i) = f (xs ! i)"
  "i < length xs \<Longrightarrow> concat (map (\<lambda>x. [f x, g x]) xs) ! Suc (2 * i) = g (xs ! i)"
proof -
  show "length (concat (map (\<lambda>x. [f x, g x]) xs)) = 2 * length xs"
    by (induction xs) auto
  show "concat (map (\<lambda>x. [f x, g x]) xs) ! (2 * i) = f (xs ! i)" if "i < length xs"
    using that by (induction xs arbitrary: i) (auto simp: nth_Cons split: nat.splits)
  show "concat (map (\<lambda>x. [f x, g x]) xs) ! Suc (2 * i) = g (xs ! i)" if "i < length xs"
    using that by (induction xs arbitrary: i) (auto simp: nth_Cons split: nat.splits)
qed

lemma startAll_effects_nth:
  assumes "i < length bundles"
  shows "concat (map fst (startAll env d config options b bundles)) ! (2 * i)
           = reporter_update (startedEvent b (bundleOptions_of d config options b (bundles ! i))
               (bundles ! i))"
    and "concat (map fst (startAll env d config options b bundles)) ! Suc (2 * i)
           = metroServer_build i (bundleOptions_of d config options b (bundles ! i))"
    and "length (concat (map fst (startAll env d config options b bundles))) = 2 * length bundles"
  using assms
  by (simp_all add: startAll_effects case_prod_unfold concat_pairs nth_enumerate_eq)

lemma startAll_effects_set:
  "e \<in> set (concat (map fst (startAll env d config options b bundles))) \<longleftrightarrow>
     (\<exists>i<length bundles.
        e = reporter_update (startedEvent b (bundleOptions_of d config options b (bundles ! i))
              (bundles ! i))
      \<or> e = metroServer_build i (bundleOptions_of d config options b (bundles ! i)))"
  (is "?L \<longleftrightarrow> ?R")
proof
  assume ?L
  then show ?R
    by (auto simp: startAll_effects in_set_enumerate_eq)
next
  assume ?R
  then obtain i where i: "i < length bundles"
    and e: "e = reporter_update (startedEvent b (bundleOptions_of d config options b (bundles ! i))
              (bundles ! i))
      \<or> e = metroServer_build i (bundleOptions_of d config options b (bundles ! i))"
    by blast
  have "(i, bundles ! i) \<in> set (enumerate 0 bundles)"
    using i by (simp add: in_set_enumerate_eq)
  with e show ?L
    unfolding startAll_effects by (auto intro!: bexI [of _ "(i, bundles ! i)"])
qed


lemma hermesLoop_effect_kinds:
  assumes "e \<in> set (fst (hermesLoop env pr cfg bundles mids i acc))"
  shows "\<not> build_effect e \<and> e \<noteq> metroServer_end \<and> (\<exists>k<length bundles. hermes_effect_at k e)"
proof -
  from hermesLoop_effects [OF assms] obtain k where k: "k < length bundles"
    and e: "e \<in> set (fst (maybeAddHermesBundleAsync env pr cfg k (bundles ! k) (mids ! k)))"
    by blast
  from maybeAdd_effects [OF e] k show ?thesis by blast
qed

lemma bundleAsync_effects:
  assumes "importMetroFromProject env pr = None"
    and "importMetroServerFromProject env pr = Inr d"
    and "loadAsync env pr options = Inr config"
    and "runMetro env config = None"
    and "b = ''bundle_'' @ string_of_nat n"
  obtains effs1 effs2 where
    "effects_of (bundleAsync env sched n pr cfg options bundles)
       = concat (map fst (startAll env d config options b bundles)) @ effs1 @ effs2
           @ [metroServer_end]"
    "\<And>e. e \<in> set effs1 \<Longrightarrow>
       build_effect e \<and> \<not> is_started e \<and> (is_progressed e \<longrightarrow> quiet options \<noteq> Some True)
         \<and> (\<forall>ev. e = reporter_update ev \<longrightarrow> buildID_of ev = b)
         \<and> (\<forall>k bo. e \<noteq> metroServer_build k bo)"
    "\<And>e. e \<in> set effs2 \<Longrightarrow>
       \<not> build_effect e \<and> e \<noteq> metroServer_end \<and> (\<exists>k<length bundles. hermes_effect_at k e)"
proof -
  let ?effs0 = "concat (map fst (startAll env d config options b bundles))"
  let ?tasks = "map snd (startAll env d config options b bundles)"
  show thesis
  proof (rule bundleAsync_cases [OF assms refl refl, where sched = sched and cfg = cfg
            and bundles = bundles])
    fix effs1 e
    assume pa: "promise_all env b sched ?tasks = (effs1, Inl e)"
      and run: "bundleAsync env sched n pr cfg options bundles
                  = (?effs0 @ effs1 @ [metroServer_end], Inl e, Suc n)"
    show thesis
    proof (rule that [of effs1 "[]"])
      show "effects_of (bundleAsync env sched n pr cfg options bundles)
              = ?effs0 @ effs1 @ [] @ [metroServer_end]"
        using run by (simp add: effects_of_def)
      fix x assume "x \<in> set effs1"
      then have "x \<in> set (fst (promise_all env b sched ?tasks))"
        using pa by simp
      then show "build_effect x \<and> \<not> is_started x \<and> (is_progressed x \<longrightarrow> quiet options \<noteq> Some True)
         \<and> (\<forall>ev. x = reporter_update ev \<longrightarrow> buildID_of ev = b)
         \<and> (\<forall>k bo. x \<noteq> metroServer_build k bo)"
        by (rule promise_all_started)
    qed simp
  next
    fix effs1 mids effs2 r
    assume pa: "promise_all env b sched ?tasks = (effs1, Inr mids)"
      and hl: "hermesLoop env pr cfg bundles mids 0 [] = (effs2, r)"
      and run: "bundleAsync env sched n pr cfg options bundles
                  = (?effs0 @ effs1 @ effs2 @ [metroServer_end], r, Suc n)"
    show thesis
    proof (rule that [of effs1 effs2])
      show "effects_of (bundleAsync env sched n pr cfg options bundles)
              = ?effs0 @ effs1 @ effs2 @ [metroServer_end]"
        using run by (simp add: effects_of_def)
    next
      fix x assume "x \<in> set effs1"
      then have "x \<in> set (fst (promise_all env b sched ?tasks))"
        using pa by simp
      then show "build_effect x \<and> \<not> is_started x \<and> (is_progressed x \<longrightarrow> quiet options \<noteq> Some True)
         \<and> (\<forall>ev. x = reporter_update ev \<longrightarrow> buildID_of ev = b)
         \<and> (\<forall>k bo. x \<noteq> metroServer_build k bo)"
        by (rule promise_all_started)
    next
      fix x assume "x \<in> set effs2"
      then have "x \<in> set (fst (hermesLoop env pr cfg bundles mids 0 []))"
        using hl by simp
      then show "\<not> build_effect x \<and> x \<noteq> metroServer_end \<and> (\<exists>k<length bundles. hermes_effect_at k x)"
        by (rule hermesLoop_effect_kinds)
    qed
  qed
qed

lemma bundleAsync_build_calls:
  assumes "importMetroFromProject env pr = None"
    and "importMetroServerFromProject env pr = Inr d"
    and "loadAsync env pr options = Inr config"
    and "runMetro env config = None"
  shows "metroServer_build i bo \<in> set (effects_of (bundleAsync env sched n pr cfg options bundles))
           \<longleftrightarrow> i < length bundles \<and>
               bo = bundleOptions_of d config options (''bundle_'' @ string_of_nat n) (bundles ! i)"
proof -
  let ?b = "''bundle_'' @ string_of_nat n"
  obtain effs1 effs2 where
    eq: "effects_of (bundleAsync env sched n pr cfg options bundles)
       = concat (map fst (startAll env d config options ?b bundles))
           @ effs1 @ effs2 @ [metroServer_end]"
    and e1: "\<And>e. e \<in> set effs1 \<Longrightarrow>
       build_effect e \<and> \<not> is_started e \<and> (is_progressed e \<longrightarrow> quiet options \<noteq> Some True)
         \<and> (\<forall>ev. e = reporter_update ev \<longrightarrow> buildID_of ev = ?b)
         \<and> (\<forall>k bo. e \<noteq> metroServer_build k bo)"
    and e2: "\<And>e. e \<in> set effs2 \<Longrightarrow>
       \<not> build_effect e \<and> e \<noteq> metroServer_end \<and> (\<exists>k<length bundles. hermes_effect_at k e)"
    by (rule bundleAsync_effects [OF assms refl, where sched = sched and cfg = cfg
          and bundles = bundles and n = n]) (rule that)
  have n1: "metroServer_build i bo \<notin> set effs1"
    using e1 [of "metroServer_build i bo"] by blast
  have n2: "metroServer_build i bo \<notin> set effs2"
    using e2 [of "metroServer_build i bo"] by auto
  have "metroServer_build i bo \<in> set (concat (map fst (startAll env d config options ?b bundles)))
      \<longleftrightarrow> (\<exists>k<length bundles. i = k \<and> bo = bundleOptions_of d config options ?b (bundles ! k))"
    unfolding startAll_effects_set by (simp only: effect.inject effect.distinct simp_thms)
  also have "\<dots> \<longleftrightarrow> i < length bundles \<and> bo = bundleOptions_of d config options ?b (bundles ! i)"
    by blast
  finally have key: "metroServer_build i bo
        \<in> set (concat (map fst (startAll env d config options ?b bundles)))
      \<longleftrightarrow> i < length bundles \<and> bo = bundleOptions_of d config options ?b (bundles ! i)" .
  have "metroServer_build i bo \<in> set (effects_of (bundleAsync env sched n pr cfg options bundles))
      \<longleftrightarrow> metroServer_build i bo
            \<in> set (concat (map fst (startAll env d config options ?b bundles)))"
    unfolding eq using n1 n2 by simp
  then show ?thesis
    by (simp only: key)
qed

lemmas demo_defs = demo_env_def demo_config_def demo_defaults_def demo_options_def
  android_request_def ios_request_def

lemmas run_defs = bundleAsync_def tryBlock_def startAll_def buildAsync_start_def
  promise_all.simps hermesLoop.simps pending_def pick_def List.map_filter_def
  maybeAddHermesBundleAsync_def configFilePath_of_def nullish_def nullish_opt_def js_not_def Let_def
  enumerate_eq_zip
  startedEvent_def hermesMessage_def platformName_def progressCallback_def
  effects_of_def result_of_def nextBuildID_of_def string_of_nat.simps digit_char_def

section \<open>The claims\<close>

text \<open>
  C8. For every bundle request, the minify option passed to the bundler's build operation
  is the request's explicit minify value when one is given, and otherwise the negation of
  the request's dev flag (minify when not in dev mode; an absent dev flag counts as
  false). The build of the target at position \<open>i\<close> is called, and every such call carries
  this value.
\<close>

theorem build_minify_default:
  assumes "importMetroFromProject env projectRoot = None"
    and "importMetroServerFromProject env projectRoot = Inr DEFAULT_BUNDLE_OPTIONS"
    and "loadAsync env projectRoot options = Inr config"
    and "runMetro env config = None"
    and "i < length bundles"
  shows "(\<exists>bundleOptions. metroServer_build i bundleOptions
            \<in> set (effects_of (bundleAsync env sched nextBuildID projectRoot expoConfig options bundles)))
       \<and> (\<forall>bundleOptions. metroServer_build i bundleOptions
            \<in> set (effects_of (bundleAsync env sched nextBuildID projectRoot expoConfig options bundles))
          \<longrightarrow> minifyM bundleOptions =
                (case minify (bundles ! i) of
                   Some m \<Rightarrow> m
                 | None \<Rightarrow> \<not> (case dev (bundles ! i) of Some v \<Rightarrow> v | None \<Rightarrow> False)))"
proof -
  have m: "minifyM (bundleOptions_of DEFAULT_BUNDLE_OPTIONS config options b req) =
             (case minify req of
                Some m \<Rightarrow> m
              | None \<Rightarrow> \<not> (case dev req of Some v \<Rightarrow> v | None \<Rightarrow> False))" for b req
    by (simp add: bundleOptions_of_def nullish_def js_not_def split: option.splits)
  show ?thesis
    unfolding bundleAsync_build_calls [OF assms(1-4)] using assms(5) by (simp add: m)
qed

lemma demo_prelude:
  "importMetroFromProject demo_env projectRoot = None"
  "importMetroServerFromProject demo_env projectRoot = Inr demo_defaults"
  "loadAsync demo_env projectRoot options = Inr demo_config"
  "runMetro demo_env config = None"
  by (simp_all add: demo_env_def)

theorem build_minify_default_witness:
  "metroServer_build 0
     (bundleOptions_of demo_defaults demo_config demo_options ''bundle_7'' android_request)
     \<in> set (effects_of (bundleAsync demo_env [] 7 ''/p'' [android] demo_options
                [android_request, ios_request]))
   \<and> minifyM (bundleOptions_of demo_defaults demo_config demo_options ''bundle_7''
        android_request) = True"
proof -
  have len: "0 < length [android_request, ios_request]"
    by simp
  have mem: "metroServer_build 0
     (bundleOptions_of demo_defaults demo_config demo_options ''bundle_7'' android_request)
     \<in> set (effects_of (bundleAsync demo_env [] 7 ''/p'' [android] demo_options
                [android_request, ios_request]))"
    by (simp add: run_defs demo_env_def)
  from build_minify_default [OF demo_prelude len, where projectRoot = "''/p''"
      and options = demo_options and sched = "[]" and nextBuildID = 7 and expoConfig = "[android]"]
  have "\<forall>bundleOptions. metroServer_build 0 bundleOptions
            \<in> set (effects_of (bundleAsync demo_env [] 7 ''/p'' [android] demo_options
                       [android_request, ios_request]))
          \<longrightarrow> minifyM bundleOptions = True"
    by (simp add: android_request_def)
  with mem show ?thesis by blast
qed

lemma task_outcome_Building:
  "task_outcome env i (Building bo ps) = Inr out \<longleftrightarrow>
     (\<exists>c m a. build env i bo = Inr (c, m) \<and> getAssets env i bo = Inr a \<and>
        out = \<lparr> code = c, map_str = m, hermesBytecodeBundle = None, hermesSourcemap = None,
                assets = a \<rparr>)"
  by (auto simp: assets_outcome_def split: sum.splits prod.splits)


lemma bundleAsync_prelude:
  assumes "result_of (bundleAsync env sched n pr cfg options bundles) = Inr outs"
  shows "\<exists>d config. importMetroFromProject env pr = None \<and>
           importMetroServerFromProject env pr = Inr d \<and>
           loadAsync env pr options = Inr config \<and> runMetro env config = None"
  using assms
  by (auto simp: bundleAsync_def result_of_def Let_def split: option.splits sum.splits prod.splits)

lemma bundleAsync_success:
  assumes "importMetroFromProject env pr = None"
    and "importMetroServerFromProject env pr = Inr d"
    and "loadAsync env pr options = Inr config"
    and "runMetro env config = None"
    and "b = ''bundle_'' @ string_of_nat n"
    and res: "result_of (bundleAsync env sched n pr cfg options bundles) = Inr outs"
  shows "length outs = length bundles"
    and "i < length bundles \<Longrightarrow>
           \<exists>c m a. build env i (bundleOptions_of d config options b (bundles ! i)) = Inr (c, m) \<and>
             getAssets env i (bundleOptions_of d config options b (bundles ! i)) = Inr a \<and>
             snd (maybeAddHermesBundleAsync env pr cfg i (bundles ! i)
                   \<lparr> code = c, map_str = m, hermesBytecodeBundle = None,
                     hermesSourcemap = None, assets = a \<rparr>) = Inr (outs ! i)"
proof -
  let ?effs0 = "concat (map fst (startAll env d config options b bundles))"
  let ?tasks = "map snd (startAll env d config options b bundles)"
  have both: "length outs = length bundles \<and> (i < length bundles \<longrightarrow>
           (\<exists>c m a. build env i (bundleOptions_of d config options b (bundles ! i)) = Inr (c, m) \<and>
             getAssets env i (bundleOptions_of d config options b (bundles ! i)) = Inr a \<and>
             snd (maybeAddHermesBundleAsync env pr cfg i (bundles ! i)
                   \<lparr> code = c, map_str = m, hermesBytecodeBundle = None,
                     hermesSourcemap = None, assets = a \<rparr>) = Inr (outs ! i)))"
  proof (rule bundleAsync_cases [OF assms(1-5) refl refl, where sched = sched and cfg = cfg
            and bundles = bundles])
    fix effs1 e
    assume "bundleAsync env sched n pr cfg options bundles
              = (?effs0 @ effs1 @ [metroServer_end], Inl e, Suc n)"
    with res show ?thesis by (simp add: result_of_def)
  next
    fix effs1 mids effs2 r
    assume pa: "promise_all env b sched ?tasks = (effs1, Inr mids)"
      and hl: "hermesLoop env pr cfg bundles mids 0 [] = (effs2, r)"
      and run: "bundleAsync env sched n pr cfg options bundles
                  = (?effs0 @ effs1 @ effs2 @ [metroServer_end], r, Suc n)"
    from run res have r: "r = Inr outs" by (simp add: result_of_def)
    note loop = hermesLoop_outputs [OF hl [unfolded r]]
    from promise_all_outcome [OF pa]
    have mids: "\<forall>k<length ?tasks. task_outcome env k (?tasks ! k) = Inr (mids ! k)"
      by simp
    have len: "length outs = length bundles"
      using loop by simp
    have "\<exists>c m a. build env i (bundleOptions_of d config options b (bundles ! i)) = Inr (c, m) \<and>
             getAssets env i (bundleOptions_of d config options b (bundles ! i)) = Inr a \<and>
             snd (maybeAddHermesBundleAsync env pr cfg i (bundles ! i)
                   \<lparr> code = c, map_str = m, hermesBytecodeBundle = None,
                     hermesSourcemap = None, assets = a \<rparr>) = Inr (outs ! i)"
      if i: "i < length bundles"
    proof -
      have "i < length ?tasks"
        using i by (simp add: startAll_tasks)
      with mids have "task_outcome env i (?tasks ! i) = Inr (mids ! i)"
        by blast
      then obtain c m a where
        bd: "build env i (bundleOptions_of d config options b (bundles ! i)) = Inr (c, m)"
        and ga: "getAssets env i (bundleOptions_of d config options b (bundles ! i)) = Inr a"
        and mid: "mids ! i = \<lparr> code = c, map_str = m, hermesBytecodeBundle = None,
                     hermesSourcemap = None, assets = a \<rparr>"
        unfolding startAll_task_nth [OF i] task_outcome_Building by blast
      from loop i have "snd (maybeAddHermesBundleAsync env pr cfg i (bundles ! i) (mids ! i))
                          = Inr (outs ! i)"
        by simp
      with bd ga mid show ?thesis by auto
    qed
    with len show ?thesis by blast
  qed
  from both show "length outs = length bundles" by blast
  from both show "\<exists>c m a. build env i (bundleOptions_of d config options b (bundles ! i)) = Inr (c, m) \<and>
             getAssets env i (bundleOptions_of d config options b (bundles ! i)) = Inr a \<and>
             snd (maybeAddHermesBundleAsync env pr cfg i (bundles ! i)
                   \<lparr> code = c, map_str = m, hermesBytecodeBundle = None,
                     hermesSourcemap = None, assets = a \<rparr>) = Inr (outs ! i)"
    if "i < length bundles"
    using that by blast
qed

lemma failing_prelude:
  "importMetroFromProject failing_env projectRoot = None"
  "importMetroServerFromProject failing_env projectRoot = Inr demo_defaults"
  "loadAsync failing_env projectRoot options = Inr demo_config"
  "runMetro failing_env config = None"
  by (simp_all add: failing_env_def demo_env_def)


lemma demo_result:
  "result_of (bundleAsync demo_env [1, 0] 7 ''/p'' [android] demo_options
      [android_request, ios_request]) =
   Inr [\<lparr> code = ''code'', map_str = ''map'', hermesBytecodeBundle = Some [198, 31],
          hermesSourcemap = Some ''hermes map'', assets = [] \<rparr>,
        \<lparr> code = ''code'', map_str = ''map'', hermesBytecodeBundle = None,
          hermesSourcemap = None, assets = [] \<rparr>]"
  by (simp add: run_defs demo_defs)

text \<open>
  C10. In bundleAsync, the \<^verbatim>\<open>bundle_build_started\<close> event of a target reports minify as
  \<^verbatim>\<open>bundle.minify ?? false\<close>, while the build of that target, called right after the event,
  runs with \<^verbatim>\<open>bundle.minify ?? !bundle.dev\<close>: for a request with minify unspecified and dev
  false or unspecified, the event reports minify = false and the build runs with
  minify = true.
\<close>

theorem started_event_minify:
  assumes "importMetroFromProject env projectRoot = None"
    and "importMetroServerFromProject env projectRoot = Inr DEFAULT_BUNDLE_OPTIONS"
    and "loadAsync env projectRoot options = Inr config"
    and "runMetro env config = None"
    and "i < length bundles"
  shows
    "started_minify
       (effects_of (bundleAsync env sched nextBuildID projectRoot expoConfig options bundles)
          ! (2 * i))
       = Some (case minify (bundles ! i) of Some m \<Rightarrow> m | None \<Rightarrow> False)
     \<and> build_minify
       (effects_of (bundleAsync env sched nextBuildID projectRoot expoConfig options bundles)
          ! Suc (2 * i))
       = Some (case minify (bundles ! i) of
                 Some m \<Rightarrow> m
               | None \<Rightarrow> \<not> (case dev (bundles ! i) of Some v \<Rightarrow> v | None \<Rightarrow> False))
     \<and> (minify (bundles ! i) = None \<and> dev (bundles ! i) \<noteq> Some True \<longrightarrow>
          started_minify
            (effects_of (bundleAsync env sched nextBuildID projectRoot expoConfig options bundles)
               ! (2 * i)) = Some False
          \<and> build_minify
            (effects_of (bundleAsync env sched nextBuildID projectRoot expoConfig options bundles)
               ! Suc (2 * i)) = Some True)"
proof -
  define b where "b = ''bundle_'' @ string_of_nat nextBuildID"
  let ?started = "concat (map fst (startAll env DEFAULT_BUNDLE_OPTIONS config options b bundles))"
  let ?effs = "effects_of (bundleAsync env sched nextBuildID projectRoot expoConfig options bundles)"
  obtain effs1 effs2 where eq: "?effs = ?started @ effs1 @ effs2 @ [metroServer_end]"
    by (rule bundleAsync_effects [OF assms(1-4) b_def, where sched = sched
          and cfg = expoConfig and bundles = bundles]) (rule that)
  note nth = startAll_effects_nth [OF assms(5), of env DEFAULT_BUNDLE_OPTIONS config options b]
  have lt: "2 * i < length ?started" "Suc (2 * i) < length ?started"
    using assms(5) nth(3) by simp_all
  have s: "?effs ! (2 * i) = reporter_update (startedEvent b
             (bundleOptions_of DEFAULT_BUNDLE_OPTIONS config options b (bundles ! i)) (bundles ! i))"
    unfolding eq using lt(1) nth(1) by (simp add: nth_append)
  have m: "?effs ! Suc (2 * i) = metroServer_build i
             (bundleOptions_of DEFAULT_BUNDLE_OPTIONS config options b (bundles ! i))"
    unfolding eq using lt(2) nth(2) by (simp add: nth_append)
  have sm: "started_minify (?effs ! (2 * i))
              = Some (case minify (bundles ! i) of Some m \<Rightarrow> m | None \<Rightarrow> False)"
    unfolding s by (simp add: startedEvent_def nullish_def)
  have bm: "build_minify (?effs ! Suc (2 * i))
              = Some (case minify (bundles ! i) of
                 Some m \<Rightarrow> m
               | None \<Rightarrow> \<not> (case dev (bundles ! i) of Some v \<Rightarrow> v | None \<Rightarrow> False))"
    unfolding m by (simp add: bundleOptions_of_def nullish_def js_not_def split: option.splits)
  show ?thesis
    unfolding sm bm by (auto split: option.splits)
qed

theorem started_event_minify_witness:
  "minify ([android_request, ios_request] ! 0) = None
   \<and> dev ([android_request, ios_request] ! 0) \<noteq> Some True
   \<and> started_minify
       (effects_of (bundleAsync demo_env [1, 0] 7 ''/p'' [android] demo_options
          [android_request, ios_request]) ! (2 * 0)) = Some False
   \<and> build_minify
       (effects_of (bundleAsync demo_env [1, 0] 7 ''/p'' [android] demo_options
          [android_request, ios_request]) ! Suc (2 * 0)) = Some True"
proof -
  have len: "0 < length [android_request, ios_request]"
    by simp
  have req: "minify ([android_request, ios_request] ! 0) = None
      \<and> dev ([android_request, ios_request] ! 0) \<noteq> Some True"
    by (simp add: android_request_def)
  with started_event_minify [OF demo_prelude len, where projectRoot = "''/p''"
      and options = demo_options and sched = "[1, 0]" and nextBuildID = 7
      and expoConfig = "[android]"]
  show ?thesis by blast
qed

lemma bundleAsync_hermes_effect:
  assumes "importMetroFromProject env pr = None"
    and "importMetroServerFromProject env pr = Inr d"
    and "loadAsync env pr options = Inr config"
    and "runMetro env config = None"
    and e: "e \<in> set (effects_of (bundleAsync env sched n pr cfg options bundles))"
    and nb: "\<not> build_effect e" and ne: "e \<noteq> metroServer_end"
  shows "\<exists>k<length bundles. \<exists>out.
           e \<in> set (fst (maybeAddHermesBundleAsync env pr cfg k (bundles ! k) out))"
proof -
  define b where "b = ''bundle_'' @ string_of_nat n"
  let ?started = "concat (map fst (startAll env d config options b bundles))"
  let ?tasks = "map snd (startAll env d config options b bundles)"
  have n0: "e \<notin> set ?started"
    using nb unfolding startAll_effects_set by auto
  have n1: "e \<notin> set (fst (promise_all env b sched ?tasks))"
    using nb promise_all_started [of e env b sched d config options bundles] by blast
  show ?thesis
  proof (rule bundleAsync_cases [OF assms(1-4) b_def refl refl, where sched = sched and cfg = cfg
            and bundles = bundles])
    fix effs1 err
    assume "promise_all env b sched ?tasks = (effs1, Inl err)"
      and "bundleAsync env sched n pr cfg options bundles
                  = (?started @ effs1 @ [metroServer_end], Inl err, Suc n)"
    with e n0 n1 ne show ?thesis by (simp add: effects_of_def)
  next
    fix effs1 mids effs2 r
    assume pa: "promise_all env b sched ?tasks = (effs1, Inr mids)"
      and hl: "hermesLoop env pr cfg bundles mids 0 [] = (effs2, r)"
      and run: "bundleAsync env sched n pr cfg options bundles
                  = (?started @ effs1 @ effs2 @ [metroServer_end], r, Suc n)"
    from e n0 n1 ne pa run have "e \<in> set effs2"
      by (simp add: effects_of_def)
    then have "e \<in> set (fst (hermesLoop env pr cfg bundles mids 0 []))"
      using hl by simp
    from hermesLoop_effects [OF this] show ?thesis by blast
  qed
qed

lemma hermes_calls_member:
  "(i, mf) \<in> set (hermes_calls effs) \<longleftrightarrow> (\<exists>p c m. hermes_build i p c m mf \<in> set effs)"
proof (induction effs)
  case Nil
  then show ?case by (simp add: hermes_calls_def)
next
  case (Cons e effs)
  then show ?case
    by (cases e) (auto simp: hermes_calls_def)
qed

lemma not_before_append_right:
  "not_before P Q xs \<Longrightarrow> \<forall>y\<in>set ys. \<not> Q y \<Longrightarrow> not_before P Q (xs @ ys)"
  by (induction xs) (auto simp: not_before_none)

text \<open>
  C5. In bundleAsync, for any two targets that both require bytecode compilation, the
  compilation of the second never begins before the compilation of the first has
  completed, whatever the order in which the concurrent builds go on: in the effects of
  a run, every call of the compiler for the target at position \<open>j\<close> comes after the
  settlement of the compilation for the target at position \<open>i < j\<close>.
\<close>

theorem hermes_compilations_sequential:
  assumes "importMetroFromProject env projectRoot = None"
    and "importMetroServerFromProject env projectRoot = Inr DEFAULT_BUNDLE_OPTIONS"
    and "loadAsync env projectRoot options = Inr config"
    and "runMetro env config = None"
    and "i < j"
    and "isEnableHermesManaged env expoConfig (platform (bundles ! i))"
    and "isEnableHermesManaged env expoConfig (platform (bundles ! j))"
  shows "not_before (hermes_completes i) (hermes_begins j)
           (effects_of (bundleAsync env sched nextBuildID projectRoot expoConfig options bundles))"
proof -
  define b where "b = ''bundle_'' @ string_of_nat nextBuildID"
  let ?started = "concat (map fst (startAll env DEFAULT_BUNDLE_OPTIONS config options b bundles))"
  let ?tasks = "map snd (startAll env DEFAULT_BUNDLE_OPTIONS config options b bundles)"
  have n0: "\<forall>e\<in>set ?started. \<not> hermes_begins j e"
  proof
    fix e assume "e \<in> set ?started"
    then show "\<not> hermes_begins j e"
      unfolding startAll_effects_set by auto
  qed
  have n1: "\<forall>e\<in>set (fst (promise_all env b sched ?tasks)). \<not> hermes_begins j e"
  proof
    fix e assume "e \<in> set (fst (promise_all env b sched ?tasks))"
    from promise_all_started [OF this] have "build_effect e" by blast
    then show "\<not> hermes_begins j e" by (cases e) auto
  qed
  show ?thesis
  proof (rule bundleAsync_cases [OF assms(1-4) b_def refl refl, where sched = sched
            and cfg = expoConfig and bundles = bundles])
    fix effs1 err
    assume pa: "promise_all env b sched ?tasks = (effs1, Inl err)"
      and run: "bundleAsync env sched nextBuildID projectRoot expoConfig options bundles
                  = (?started @ effs1 @ [metroServer_end], Inl err, Suc nextBuildID)"
    have "\<forall>e\<in>set (?started @ effs1 @ [metroServer_end]). \<not> hermes_begins j e"
      using n0 n1 pa by auto
    then show ?thesis
      unfolding run effects_of_def fst_conv by (rule not_before_none)
  next
    fix effs1 mids effs2 r
    assume pa: "promise_all env b sched ?tasks = (effs1, Inr mids)"
      and hl: "hermesLoop env projectRoot expoConfig bundles mids 0 [] = (effs2, r)"
      and run: "bundleAsync env sched nextBuildID projectRoot expoConfig options bundles
                  = (?started @ effs1 @ effs2 @ [metroServer_end], r, Suc nextBuildID)"
    have "not_before (hermes_completes i) (hermes_begins j)
            (fst (hermesLoop env projectRoot expoConfig bundles mids 0 []))"
      by (rule hermesLoop_sequential [OF _ assms(5,6)]) simp
    then have "not_before (hermes_completes i) (hermes_begins j) effs2"
      using hl by simp
    then have a: "not_before (hermes_completes i) (hermes_begins j) (effs2 @ [metroServer_end])"
      by (rule not_before_append_right) simp
    have e1: "\<forall>e\<in>set effs1. \<not> hermes_begins j e"
      using n1 pa by simp
    have "not_before (hermes_completes i) (hermes_begins j)
                 (?started @ effs1 @ effs2 @ [metroServer_end])"
      by (rule not_before_append_later [OF n0 not_before_append_later [OF e1 a]])
    then show ?thesis
      unfolding run effects_of_def fst_conv .
  qed
qed

lemma demo_two_hermes_calls:
  "hermes_calls (effects_of (bundleAsync demo_env [1, 0] 7 ''/p'' [android, ios] demo_options
      [android_request, ios_request])) = [(0, None), (1, Some False)]"
  by (simp add: run_defs demo_defs hermes_calls_def)

theorem hermes_compilations_sequential_witness:
  "isEnableHermesManaged demo_env [android, ios] (platform ([android_request, ios_request] ! 0))
   \<and> isEnableHermesManaged demo_env [android, ios] (platform ([android_request, ios_request] ! 1))
   \<and> hermes_calls (effects_of (bundleAsync demo_env [1, 0] 7 ''/p'' [android, ios] demo_options
        [android_request, ios_request])) = [(0, None), (1, Some False)]
   \<and> not_before (hermes_completes 0) (hermes_begins 1)
        (effects_of (bundleAsync demo_env [1, 0] 7 ''/p'' [android, ios] demo_options
           [android_request, ios_request]))"
proof -
  have lt: "(0::nat) < 1"
    by simp
  have m0: "isEnableHermesManaged demo_env [android, ios]
              (platform ([android_request, ios_request] ! 0))"
    by (simp add: demo_defs)
  have m1: "isEnableHermesManaged demo_env [android, ios]
              (platform ([android_request, ios_request] ! 1))"
    by (simp add: demo_defs)
  from hermes_compilations_sequential [OF demo_prelude lt m0 m1, where projectRoot = "''/p''"
      and options = demo_options and sched = "[1, 0]" and nextBuildID = 7]
    m0 m1 demo_two_hermes_calls
  show ?thesis by blast
qed

lemma maybeAdd_check_fails:
  assumes "maybeThrowFromInconsistentEngineAsync env i pr
             (configFilePath_of (getConfigFilePaths env pr)) (platform req)
             (isEnableHermesManaged env cfg (platform req)) = Some e"
  shows "maybeAddHermesBundleAsync env pr cfg i req out =
           ([engine_check i pr (configFilePath_of (getConfigFilePaths env pr)) (platform req)
               (isEnableHermesManaged env cfg (platform req))], Inl e)"
  using assms by (simp add: maybeAddHermesBundleAsync_def Let_def)

lemma maybeAdd_succeeds:
  assumes "maybeThrowFromInconsistentEngineAsync env i pr
             (configFilePath_of (getConfigFilePaths env pr)) (platform req)
             (isEnableHermesManaged env cfg (platform req)) = None"
    and "isEnableHermesManaged env cfg (platform req) \<longrightarrow>
           (\<exists>h. buildHermesBundleAsync env i pr (code out) (map_str out) (minify req) = Inr h)"
  shows "\<exists>out'. snd (maybeAddHermesBundleAsync env pr cfg i req out) = Inr out'"
  using assms by (auto simp: maybeAddHermesBundleAsync_def Let_def)

lemma promise_all_all_built:
  assumes "\<forall>j<length tasks. \<exists>out. task_outcome env j (tasks ! j) = Inr out"
  shows "\<exists>effs1 mids. promise_all env b sched tasks = (effs1, Inr mids)"
proof -
  obtain effs1 r where pa: "promise_all env b sched tasks = (effs1, r)"
    by (cases "promise_all env b sched tasks")
  show ?thesis
  proof (cases r)
    case (Inl e)
    with promise_all_outcome [OF pa] assms show ?thesis by fastforce
  next
    case (Inr mids)
    with pa show ?thesis by blast
  qed
qed

lemma bundleAsync_stops_at:
  assumes "importMetroFromProject env pr = None"
    and "importMetroServerFromProject env pr = Inr d"
    and "loadAsync env pr options = Inr config"
    and "runMetro env config = None"
    and chk: "engine_check k x y z w \<in> set (effects_of (bundleAsync env sched n pr cfg options bundles))"
    and fail: "\<And>out. snd (maybeAddHermesBundleAsync env pr cfg k (bundles ! k) out) = Inl e"
  shows "result_of (bundleAsync env sched n pr cfg options bundles) = Inl e"
proof -
  define b where "b = ''bundle_'' @ string_of_nat n"
  let ?started = "concat (map fst (startAll env d config options b bundles))"
  let ?tasks = "map snd (startAll env d config options b bundles)"
  have n0: "engine_check k x y z w \<notin> set ?started"
    unfolding startAll_effects_set by auto
  have n1: "engine_check k x y z w \<notin> set (fst (promise_all env b sched ?tasks))"
    using promise_all_started [of "engine_check k x y z w" env b sched d config options bundles]
    by auto
  show ?thesis
  proof (rule bundleAsync_cases [OF assms(1-4) b_def refl refl, where sched = sched and cfg = cfg
            and bundles = bundles])
    fix effs1 err
    assume "promise_all env b sched ?tasks = (effs1, Inl err)"
      and "bundleAsync env sched n pr cfg options bundles
                  = (?started @ effs1 @ [metroServer_end], Inl err, Suc n)"
    with chk n0 n1 show ?thesis by (simp add: effects_of_def)
  next
    fix effs1 mids effs2 r
    assume pa: "promise_all env b sched ?tasks = (effs1, Inr mids)"
      and hl: "hermesLoop env pr cfg bundles mids 0 [] = (effs2, r)"
      and run: "bundleAsync env sched n pr cfg options bundles
                  = (?started @ effs1 @ effs2 @ [metroServer_end], r, Suc n)"
    from chk n0 n1 pa run have "engine_check k x y z w \<in> set effs2"
      by (simp add: effects_of_def)
    then have "engine_check k x y z w \<in> set (fst (hermesLoop env pr cfg bundles mids 0 []))"
      using hl by simp
    from hermesLoop_stops_at [OF this fail] hl run show ?thesis
      by (simp add: result_of_def)
  qed
qed

lemma bundleAsync_check_fails:
  assumes "importMetroFromProject env pr = None"
    and "importMetroServerFromProject env pr = Inr d"
    and "loadAsync env pr options = Inr config"
    and "runMetro env config = None"
    and k: "k < length bundles"
    and fail: "\<And>out. snd (maybeAddHermesBundleAsync env pr cfg k (bundles ! k) out) = Inl e"
  shows "\<exists>e'. result_of (bundleAsync env sched n pr cfg options bundles) = Inl e'"
proof -
  define b where "b = ''bundle_'' @ string_of_nat n"
  let ?started = "concat (map fst (startAll env d config options b bundles))"
  let ?tasks = "map snd (startAll env d config options b bundles)"
  show ?thesis
  proof (rule bundleAsync_cases [OF assms(1-4) b_def refl refl, where sched = sched and cfg = cfg
            and bundles = bundles])
    fix effs1 err
    assume "bundleAsync env sched n pr cfg options bundles
                  = (?started @ effs1 @ [metroServer_end], Inl err, Suc n)"
    then show ?thesis by (simp add: result_of_def)
  next
    fix effs1 mids effs2 r
    assume hl: "hermesLoop env pr cfg bundles mids 0 [] = (effs2, r)"
      and run: "bundleAsync env sched n pr cfg options bundles
                  = (?started @ effs1 @ effs2 @ [metroServer_end], r, Suc n)"
    from hermesLoop_fails [OF _ k fail, of 0 mids "[]"] hl run show ?thesis
      by (simp add: result_of_def)
  qed
qed

lemma bundleAsync_reaches:
  assumes "importMetroFromProject env pr = None"
    and "importMetroServerFromProject env pr = Inr d"
    and "loadAsync env pr options = Inr config"
    and "runMetro env config = None"
    and k: "k < length bundles"
    and built: "\<forall>j<length bundles. \<exists>c m a.
        build env j (bundleOptions_of d config options (''bundle_'' @ string_of_nat n) (bundles ! j))
          = Inr (c, m) \<and>
        getAssets env j (bundleOptions_of d config options (''bundle_'' @ string_of_nat n)
          (bundles ! j)) = Inr a"
    and earlier: "\<And>j out. j < k \<Longrightarrow>
        \<exists>out'. snd (maybeAddHermesBundleAsync env pr cfg j (bundles ! j) out) = Inr out'"
  shows "\<exists>out. set (fst (maybeAddHermesBundleAsync env pr cfg k (bundles ! k) out))
           \<subseteq> set (effects_of (bundleAsync env sched n pr cfg options bundles))"
proof -
  define b where "b = ''bundle_'' @ string_of_nat n"
  let ?started = "concat (map fst (startAll env d config options b bundles))"
  let ?tasks = "map snd (startAll env d config options b bundles)"
  have "\<exists>out. task_outcome env j (?tasks ! j) = Inr out" if "j < length ?tasks" for j
  proof -
    from that have j: "j < length bundles" by (simp add: startAll_tasks)
    with built show ?thesis
      unfolding startAll_task_nth [OF j] task_outcome_Building b_def by blast
  qed
  then obtain effs1 mids where pa: "promise_all env b sched ?tasks = (effs1, Inr mids)"
    using promise_all_all_built [of ?tasks env b sched] by blast
  show ?thesis
  proof (rule bundleAsync_cases [OF assms(1-4) b_def refl refl, where sched = sched and cfg = cfg
            and bundles = bundles])
    fix effs1' err
    assume "promise_all env b sched ?tasks = (effs1', Inl err)"
    with pa show ?thesis by simp
  next
    fix effs1' mids' effs2 r
    assume pa': "promise_all env b sched ?tasks = (effs1', Inr mids')"
      and hl: "hermesLoop env pr cfg bundles mids' 0 [] = (effs2, r)"
      and run: "bundleAsync env sched n pr cfg options bundles
                  = (?started @ effs1' @ effs2 @ [metroServer_end], r, Suc n)"
    have "set (fst (maybeAddHermesBundleAsync env pr cfg k (bundles ! k) (mids' ! k)))
            \<subseteq> set (fst (hermesLoop env pr cfg bundles mids' 0 []))"
      by (rule hermesLoop_reaches [OF _ k]) (use earlier in simp_all)
    with hl run show ?thesis
      by (auto simp: effects_of_def)
  qed
qed

lemma mismatch_prelude:
  "importMetroFromProject mismatch_env projectRoot = None"
  "importMetroServerFromProject mismatch_env projectRoot = Inr demo_defaults"
  "loadAsync mismatch_env projectRoot options = Inr demo_config"
  "runMetro mismatch_env config = None"
  by (simp_all add: mismatch_env_def demo_env_def)

text \<open>
  C4. In the sequential phase of bundleAsync, the consistency of the engine is verified
  for each target whose platform is configured for Hermes, before the bytecode of that
  target is compiled. When the declared engine and the setting of the platform do not
  match for such a target, then, for every order of the concurrent builds: the batch
  fails and no array is returned; the bytecode compiler is never called for that
  target; whenever the check of that target has been made, the error of the batch
  is the one that names the active config file (\<^verbatim>\<open>dynamicConfigPath ?? staticConfigPath ??
  'app.json'\<close>); and the check is made whenever all builds and the steps of the earlier
  targets succeed.
\<close>

theorem engine_mismatch_fails_batch:
  assumes "importMetroFromProject env projectRoot = None"
    and "importMetroServerFromProject env projectRoot = Inr DEFAULT_BUNDLE_OPTIONS"
    and "loadAsync env projectRoot options = Inr config"
    and "runMetro env config = None"
    and "maybeThrowFromInconsistentEngineAsync env
           = (\<lambda>i. maybeThrowFromInconsistentEngine_spec platformSetting)"
    and "i < length bundles"
    and "isEnableHermesManaged env expoConfig (platform (bundles ! i))"
    and "\<not> platformSetting projectRoot (platform (bundles ! i))"
  shows
    "(\<exists>e. result_of (bundleAsync env sched nextBuildID projectRoot expoConfig options bundles)
            = Inl e)
     \<and> (\<forall>e\<in>set (effects_of (bundleAsync env sched nextBuildID projectRoot expoConfig options
                    bundles)). \<not> hermes_begins i e)
     \<and> (engine_check i projectRoot (configFilePath_of (getConfigFilePaths env projectRoot))
           (platform (bundles ! i)) True
          \<in> set (effects_of (bundleAsync env sched nextBuildID projectRoot expoConfig options
                     bundles))
         \<longrightarrow> result_of (bundleAsync env sched nextBuildID projectRoot expoConfig options bundles)
               = Inl (InconsistentEngineError
                        (configFilePath_of (getConfigFilePaths env projectRoot))))
     \<and> ((\<forall>j<length bundles. \<exists>c m a.
            build env j (bundleOptions_of DEFAULT_BUNDLE_OPTIONS config options
              (''bundle_'' @ string_of_nat nextBuildID) (bundles ! j)) = Inr (c, m) \<and>
            getAssets env j (bundleOptions_of DEFAULT_BUNDLE_OPTIONS config options
              (''bundle_'' @ string_of_nat nextBuildID) (bundles ! j)) = Inr a)
         \<and> (\<forall>j<i.
              platformSetting projectRoot (platform (bundles ! j))
                = isEnableHermesManaged env expoConfig (platform (bundles ! j)) \<and>
              (isEnableHermesManaged env expoConfig (platform (bundles ! j)) \<longrightarrow>
                 (\<forall>c m. \<exists>h. buildHermesBundleAsync env j projectRoot c m (minify (bundles ! j))
                            = Inr h)))
         \<longrightarrow> engine_check i projectRoot (configFilePath_of (getConfigFilePaths env projectRoot))
               (platform (bundles ! i)) True
              \<in> set (effects_of (bundleAsync env sched nextBuildID projectRoot expoConfig options
                         bundles)))"
proof -
  let ?run = "bundleAsync env sched nextBuildID projectRoot expoConfig options bundles"
  let ?path = "configFilePath_of (getConfigFilePaths env projectRoot)"
  let ?check = "engine_check i projectRoot ?path (platform (bundles ! i)) True"
  note pre = assms(1-4)
  have thrown: "maybeThrowFromInconsistentEngineAsync env i projectRoot ?path
                  (platform (bundles ! i))
                  (isEnableHermesManaged env expoConfig (platform (bundles ! i)))
                  = Some (InconsistentEngineError ?path)"
    using assms(7,8) by (simp add: assms(5) maybeThrowFromInconsistentEngine_spec_def)
  have step: "maybeAddHermesBundleAsync env projectRoot expoConfig i (bundles ! i) out
                = ([?check], Inl (InconsistentEngineError ?path))" for out
    using maybeAdd_check_fails [OF thrown, of out] assms(7) by simp
  have fail: "snd (maybeAddHermesBundleAsync env projectRoot expoConfig i (bundles ! i) out)
                = Inl (InconsistentEngineError ?path)" for out
    by (simp add: step)
  have c1: "\<exists>e. result_of ?run = Inl e"
    by (rule bundleAsync_check_fails [OF pre assms(6) fail])
  have c2: "\<forall>e\<in>set (effects_of ?run). \<not> hermes_begins i e"
  proof (intro ballI notI)
    fix e assume e: "e \<in> set (effects_of ?run)" and hb: "hermes_begins i e"
    from hb have "\<not> build_effect e" "e \<noteq> metroServer_end"
      by (cases e; simp)+
    from bundleAsync_hermes_effect [OF pre e this]
    obtain k out where
      mem: "e \<in> set (fst (maybeAddHermesBundleAsync env projectRoot expoConfig k (bundles ! k) out))"
      by blast
    from maybeAdd_effects [OF mem] hb have "k = i"
      by (cases e) auto
    with mem hb show False
      by (simp add: step)
  qed
  have c3: "result_of ?run = Inl (InconsistentEngineError ?path)" if "?check \<in> set (effects_of ?run)"
    by (rule bundleAsync_stops_at [OF pre that fail])
  have c4: "?check \<in> set (effects_of ?run)"
    if built: "\<forall>j<length bundles. \<exists>c m a.
            build env j (bundleOptions_of DEFAULT_BUNDLE_OPTIONS config options
              (''bundle_'' @ string_of_nat nextBuildID) (bundles ! j)) = Inr (c, m) \<and>
            getAssets env j (bundleOptions_of DEFAULT_BUNDLE_OPTIONS config options
              (''bundle_'' @ string_of_nat nextBuildID) (bundles ! j)) = Inr a"
      and earlier: "\<forall>j<i.
              platformSetting projectRoot (platform (bundles ! j))
                = isEnableHermesManaged env expoConfig (platform (bundles ! j)) \<and>
              (isEnableHermesManaged env expoConfig (platform (bundles ! j)) \<longrightarrow>
                 (\<forall>c m. \<exists>h. buildHermesBundleAsync env j projectRoot c m (minify (bundles ! j))
                            = Inr h))"
  proof -
    have ok: "\<exists>out'. snd (maybeAddHermesBundleAsync env projectRoot expoConfig j (bundles ! j) out)
                = Inr out'" if "j < i" for j out
    proof (rule maybeAdd_succeeds)
      show "maybeThrowFromInconsistentEngineAsync env j projectRoot ?path (platform (bundles ! j))
              (isEnableHermesManaged env expoConfig (platform (bundles ! j))) = None"
        using earlier that by (simp add: assms(5) maybeThrowFromInconsistentEngine_spec_def)
      show "isEnableHermesManaged env expoConfig (platform (bundles ! j)) \<longrightarrow>
              (\<exists>h. buildHermesBundleAsync env j projectRoot (code out) (map_str out)
                     (minify (bundles ! j)) = Inr h)"
        using earlier that by blast
    qed
    from bundleAsync_reaches [OF pre assms(6) built ok, of sched]
    show ?thesis by (simp add: step)
  qed
  from c1 c2 c3 c4 show ?thesis
    by blast
qed

lemma mismatch_effects:
  "engine_check 1 ''/p'' ''/p/app.json'' android True
     \<in> set (effects_of (bundleAsync mismatch_env [1, 0] 7 ''/p'' [android] demo_options
                [ios_request, android_request]))"
  by (simp add: run_defs demo_defs mismatch_env_def maybeThrowFromInconsistentEngine_spec_def)

theorem engine_mismatch_fails_batch_witness:
  "isEnableHermesManaged mismatch_env [android] (platform ([ios_request, android_request] ! 1))
   \<and> engine_check 1 ''/p'' ''/p/app.json'' android True
        \<in> set (effects_of (bundleAsync mismatch_env [1, 0] 7 ''/p'' [android] demo_options
                   [ios_request, android_request]))
   \<and> result_of (bundleAsync mismatch_env [1, 0] 7 ''/p'' [android] demo_options
        [ios_request, android_request]) = Inl (InconsistentEngineError ''/p/app.json'')"
proof -
  have helper: "maybeThrowFromInconsistentEngineAsync mismatch_env
                  = (\<lambda>i. maybeThrowFromInconsistentEngine_spec (\<lambda>projectRoot p. False))"
    by (simp add: mismatch_env_def)
  have len: "1 < length [ios_request, android_request]"
    by simp
  have man: "isEnableHermesManaged mismatch_env [android]
               (platform ([ios_request, android_request] ! 1))"
    by (simp add: mismatch_env_def demo_defs)
  have mis: "\<not> (\<lambda>projectRoot p. False) ''/p'' (platform ([ios_request, android_request] ! 1))"
    by simp
  have path: "configFilePath_of (getConfigFilePaths mismatch_env ''/p'') = ''/p/app.json''"
    by (simp add: mismatch_env_def demo_env_def configFilePath_of_def nullish_def nullish_opt_def)
  have plat: "platform ([ios_request, android_request] ! 1) = android"
    by (simp add: android_request_def)
  from engine_mismatch_fails_batch [where platformSetting = "\<lambda>projectRoot p. False"
      and projectRoot = "''/p''" and options = demo_options and sched = "[1, 0]"
      and nextBuildID = 7, OF mismatch_prelude helper len man mis]
  have "engine_check 1 ''/p'' ''/p/app.json'' android True
          \<in> set (effects_of (bundleAsync mismatch_env [1, 0] 7 ''/p'' [android] demo_options
                     [ios_request, android_request]))
        \<longrightarrow> result_of (bundleAsync mismatch_env [1, 0] 7 ''/p'' [android] demo_options
              [ios_request, android_request]) = Inl (InconsistentEngineError ''/p/app.json'')"
    unfolding path plat by blast
  with mismatch_effects man show ?thesis
    by blast
qed

lemma reporter_kinds:
  "is_started e \<Longrightarrow> build_effect e"
  "is_progressed e \<Longrightarrow> build_effect e"
  "is_done e \<Longrightarrow> build_effect e"
  "reported_buildID e = Some x \<Longrightarrow> build_effect e"
  by (cases e; simp)+

lemma startAll_started_events:
  "filter is_started (concat (map fst (startAll env d config options b bundles))) =
     map (\<lambda>req. reporter_update (startedEvent b (bundleOptions_of d config options b req) req))
       bundles"
proof -
  have "filter is_started (concat (map (\<lambda>(i, req).
          [reporter_update (startedEvent b (bundleOptions_of d config options b req) req),
           metroServer_build i (bundleOptions_of d config options b req)]) (enumerate k bundles)))
        = map (\<lambda>req. reporter_update (startedEvent b (bundleOptions_of d config options b req) req))
            bundles" for k
    by (induction bundles arbitrary: k) (simp_all add: startedEvent_def)
  then show ?thesis
    by (simp add: startAll_effects)
qed

lemma startAll_no_progress_done:
  "filter is_progressed (concat (map fst (startAll env d config options b bundles))) = []"
  "filter is_done (concat (map fst (startAll env d config options b bundles))) = []"
proof -
  have "\<not> is_progressed e \<and> \<not> is_done e"
    if "e \<in> set (concat (map fst (startAll env d config options b bundles)))" for e
    using that unfolding startAll_effects_set by (auto simp: startedEvent_def)
  then show "filter is_progressed (concat (map fst (startAll env d config options b bundles))) = []"
    and "filter is_done (concat (map fst (startAll env d config options b bundles))) = []"
    by (simp_all add: filter_empty_conv)
qed

lemma startAll_buildIDs:
  assumes "reporter_update ev \<in> set (concat (map fst (startAll env d config options b bundles)))"
  shows "buildID_of ev = b"
  using assms unfolding startAll_effects_set by (auto simp: startedEvent_def)

lemma loud_progress:
  "filter is_progressed (effects_of (bundleAsync demo_env [1, 0] 7 ''/p'' [android] loud_options
      [android_request, ios_request]))
   = [reporter_update (bundle_transform_progressed ''bundle_7'' 1 2),
      reporter_update (bundle_transform_progressed ''bundle_7'' 1 2)]"
  by (simp add: run_defs demo_defs loud_options_def bundleOptions_of_def)

text \<open>
  C6. In runMetroDevServerAsync, the \<^verbatim>\<open>enhanceMiddleware\<close> installed into the configuration
  that is handed to the bundler's server first applies the custom enhancer of the loaded
  configuration, when there is one, to the bundler's native middleware, and then hands
  the result to \<^verbatim>\<open>middleware.use\<close> of the base stack; without a custom enhancer the native
  middleware is handed to \<^verbatim>\<open>middleware.use\<close> directly.
\<close>

theorem merged_enhanceMiddleware_order:
  assumes "dev_loadAsync env projectRoot options = Inr metroConfig"
    and "dsm = createDevServerMiddleware env (server_port metroConfig) (watchFolders metroConfig)"
  shows
    "(\<exists>config. call_createDevServerAsync projectRoot config
         \<in> set (fst (runMetroDevServerAsync env projectRoot options)))
     \<and> (\<forall>pr config. call_createDevServerAsync pr config
           \<in> set (fst (runMetroDevServerAsync env projectRoot options)) \<longrightarrow>
          (\<exists>merged. server_enhanceMiddleware config = Some merged \<and>
             (\<forall>custom. server_enhanceMiddleware metroConfig = Some custom \<longrightarrow>
                merged metroMiddleware metroServer
                  = middleware_use dsm (custom metroMiddleware metroServer)) \<and>
             (server_enhanceMiddleware metroConfig = None \<longrightarrow>
                merged metroMiddleware metroServer = middleware_use dsm metroMiddleware)))"
proof -
  have calls: "call_createDevServerAsync pr config
                 \<in> set (fst (runMetroDevServerAsync env projectRoot options))
               \<longleftrightarrow> pr = projectRoot \<and> config = mergedConfig metroConfig dsm" for pr config
    using assms
    by (auto simp: runMetroDevServerAsync_def Let_def split: sum.splits prod.splits)
  have merged: "server_enhanceMiddleware (mergedConfig metroConfig dsm)
                  = Some (enhanceMiddleware (server_enhanceMiddleware metroConfig)
                            (middleware_use dsm))"
    by (simp add: mergedConfig_def Let_def)
  show ?thesis
    unfolding calls by (auto simp: merged enhanceMiddleware_def Let_def)
qed

theorem merged_enhanceMiddleware_order_witness:
  "(\<exists>merged. call_createDevServerAsync ''/p''
        \<lparr> server_port = 8081, server_enhanceMiddleware = Some merged, watchFolders = [],
          serializer_createModuleIdFactory = length \<rparr>
       \<in> set (fst (runMetroDevServerAsync demo_dev_env ''/p'' demo_options))
     \<and> merged [''metro''] () = [''base'', ''custom'', ''metro''])"
proof -
  let ?loaded = "\<lparr> server_port = 8081,
           server_enhanceMiddleware =
             Some (\<lambda>metroMiddleware (metroServer :: unit). ''custom'' # metroMiddleware),
           watchFolders = [], serializer_createModuleIdFactory = length \<rparr>"
  let ?dsm = "\<lparr> middleware = [''base''], middleware_use = (\<lambda>handler. ''base'' # handler),
           attachToServer = (\<lambda>srv :: unit. ((), ())) \<rparr>"
  have l: "dev_loadAsync demo_dev_env ''/p'' demo_options = Inr ?loaded"
    by (simp add: demo_dev_env_def)
  have d: "?dsm = createDevServerMiddleware demo_dev_env (server_port ?loaded) (watchFolders ?loaded)"
    by (simp add: demo_dev_env_def)
  have mem: "call_createDevServerAsync ''/p'' (mergedConfig ?loaded ?dsm)
               \<in> set (fst (runMetroDevServerAsync demo_dev_env ''/p'' demo_options))"
    by (simp add: runMetroDevServerAsync_def demo_dev_env_def Let_def)
  from merged_enhanceMiddleware_order [OF l d, of "[''metro'']" "()"] mem
  obtain merged where m: "server_enhanceMiddleware (mergedConfig ?loaded ?dsm) = Some merged"
    and c: "merged [''metro''] () = middleware_use ?dsm (''custom'' # [''metro''])"
    by auto
  have "mergedConfig ?loaded ?dsm
          = \<lparr> server_port = 8081, server_enhanceMiddleware = Some merged, watchFolders = [],
              serializer_createModuleIdFactory = length \<rparr>"
    using m by (simp add: mergedConfig_def Let_def)
  with mem c show ?thesis
    by (intro exI [of _ merged]) simp
qed

text \<open>
  C9. attachInspectorProxy chooses at most one way of binding the WebSockets, by what the
  proxy object has: when it has \<^verbatim>\<open>addWebSocketListener\<close>, that method is called and
  \<^verbatim>\<open>createWebSocketListeners\<close> is not, even when the object has it too; when it has only
  \<^verbatim>\<open>createWebSocketListeners\<close>, that one is called; when it has neither, nothing is bound,
  the \<^verbatim>\<open>processRequest\<close> middleware is still put into the chain, and the function returns
  the proxy without an error.
\<close>

theorem inspector_binding_choice:
  assumes "newInspectorProxy projectRoot = Inr inspectorProxy"
  shows
    "length (filter is_binding (fst (attachInspectorProxy newInspectorProxy projectRoot srv))) \<le> 1
     \<and> (addWebSocketListener inspectorProxy \<noteq> None \<longrightarrow>
          call_addWebSocketListener srv
            \<in> set (fst (attachInspectorProxy newInspectorProxy projectRoot srv)) \<and>
          (\<forall>s. call_createWebSocketListeners s
            \<notin> set (fst (attachInspectorProxy newInspectorProxy projectRoot srv))))
     \<and> (addWebSocketListener inspectorProxy = None \<and>
         createWebSocketListeners inspectorProxy \<noteq> None \<longrightarrow>
          call_createWebSocketListeners srv
            \<in> set (fst (attachInspectorProxy newInspectorProxy projectRoot srv)) \<and>
          (\<forall>s. call_addWebSocketListener s
            \<notin> set (fst (attachInspectorProxy newInspectorProxy projectRoot srv))))
     \<and> (addWebSocketListener inspectorProxy = None \<and>
         createWebSocketListeners inspectorProxy = None \<longrightarrow>
          attachInspectorProxy newInspectorProxy projectRoot srv
            = ([call_middleware_use (processRequest inspectorProxy)], Inr inspectorProxy))"
  using assms
  by (auto simp: attachInspectorProxy_def split: option.splits)

theorem inspector_binding_choice_witness:
  "attachInspectorProxy (\<lambda>projectRoot. Inr both_proxy) ''/p'' ()
     = ([call_addWebSocketListener (), call_middleware_use ''processRequest''], Inr both_proxy)
   \<and> call_createWebSocketListeners ()
       \<notin> set (fst (attachInspectorProxy (\<lambda>projectRoot. Inr both_proxy) ''/p'' ()))
   \<and> attachInspectorProxy (\<lambda>projectRoot. Inr bare_proxy) ''/p'' ()
     = ([call_middleware_use ''processRequest''], Inr bare_proxy)"
proof -
  have both: "addWebSocketListener both_proxy \<noteq> None"
    by (simp add: both_proxy_def)
  have bare: "addWebSocketListener bare_proxy = None \<and> createWebSocketListeners bare_proxy = None"
    by (simp add: bare_proxy_def)
  have run: "attachInspectorProxy (\<lambda>projectRoot. Inr both_proxy) ''/p'' ()
     = ([call_addWebSocketListener (), call_middleware_use ''processRequest''], Inr both_proxy)"
    by (simp add: attachInspectorProxy_def both_proxy_def)
  have pr: "processRequest bare_proxy = ''processRequest''"
    by (simp add: bare_proxy_def)
  from inspector_binding_choice [of "\<lambda>projectRoot. Inr both_proxy" "''/p''" both_proxy "()"]
    inspector_binding_choice [of "\<lambda>projectRoot. Inr bare_proxy" "''/p''" bare_proxy "()"]
    both bare run pr
  show ?thesis
    by simp
qed

lemma hermesLoop_all_ok:
  "(\<forall>k. i \<le> k \<and> k < length bundles \<longrightarrow>
      (\<exists>out'. snd (maybeAddHermesBundleAsync env pr cfg k (bundles ! k) (mids ! k)) = Inr out')) \<Longrightarrow>
     \<exists>outs. snd (hermesLoop env pr cfg bundles mids i acc) = Inr outs"
proof (induction env pr cfg bundles mids i acc rule: hermesLoop.induct)
  case (1 env pr cfg bundles mids i acc)
  show ?case
  proof (cases "i < length bundles")
    case False
    then show ?thesis by (simp add: hermesLoop.simps)
  next
    case True
    from True show ?thesis
    proof (cases rule: hermesLoop_unfold [where env = env and pr = pr and cfg = cfg
              and mids = mids and acc = acc])
      case (fails effs1 e)
      with "1.prems" True show ?thesis by fastforce
    next
      case (goes_on effs1 out effs2 r)
      have "\<forall>k. Suc i \<le> k \<and> k < length bundles \<longrightarrow>
          (\<exists>out'. snd (maybeAddHermesBundleAsync env pr cfg k (bundles ! k) (mids ! k)) = Inr out')"
        using "1.prems" by simp
      from "1.IH" [OF True goes_on(1) [symmetric] refl this] goes_on
      show ?thesis by simp
    qed
  qed
qed

lemma maybeAdd_result_exact:
  assumes "snd (maybeAddHermesBundleAsync env pr cfg i req out) = Inr out'"
  shows "if isEnableHermesManaged env cfg (platform req)
         then \<exists>h. buildHermesBundleAsync env i pr (code out) (map_str out) (minify req) = Inr h \<and>
                out' = out \<lparr> hermesBytecodeBundle := Some (hbc h),
                             hermesSourcemap := Some (sourcemap h) \<rparr>
         else out' = out"
  using assms
  by (auto simp: maybeAddHermesBundleAsync_def Let_def split: option.splits if_splits sum.splits)

lemma bundleAsync_returns:
  assumes "importMetroFromProject env pr = None"
    and "importMetroServerFromProject env pr = Inr d"
    and "loadAsync env pr options = Inr config"
    and "runMetro env config = None"
    and ok: "\<forall>i<length bundles. \<exists>c m a.
        build env i (bundleOptions_of d config options (''bundle_'' @ string_of_nat n) (bundles ! i))
          = Inr (c, m) \<and>
        getAssets env i (bundleOptions_of d config options (''bundle_'' @ string_of_nat n)
          (bundles ! i)) = Inr a \<and>
        maybeThrowFromInconsistentEngineAsync env i pr
          (configFilePath_of (getConfigFilePaths env pr)) (platform (bundles ! i))
          (isEnableHermesManaged env cfg (platform (bundles ! i))) = None \<and>
        (isEnableHermesManaged env cfg (platform (bundles ! i)) \<longrightarrow>
           (\<exists>h. buildHermesBundleAsync env i pr c m (minify (bundles ! i)) = Inr h))"
  shows "\<exists>outs. result_of (bundleAsync env sched n pr cfg options bundles) = Inr outs"
proof -
  define b where "b = ''bundle_'' @ string_of_nat n"
  let ?started = "concat (map fst (startAll env d config options b bundles))"
  let ?tasks = "map snd (startAll env d config options b bundles)"
  have built: "\<exists>out. task_outcome env j (?tasks ! j) = Inr out" if "j < length ?tasks" for j
  proof -
    from that have j: "j < length bundles" by (simp add: startAll_tasks)
    with ok show ?thesis
      unfolding startAll_task_nth [OF j] task_outcome_Building b_def by blast
  qed
  then obtain effs1 mids where pa: "promise_all env b sched ?tasks = (effs1, Inr mids)"
    using promise_all_all_built [of ?tasks env b sched] by blast
  from promise_all_outcome [OF pa]
  have mids: "\<forall>k<length ?tasks. task_outcome env k (?tasks ! k) = Inr (mids ! k)"
    by simp
  have step: "\<exists>out'. snd (maybeAddHermesBundleAsync env pr cfg k (bundles ! k) (mids ! k)) = Inr out'"
    if k: "k < length bundles" for k
  proof -
    have "k < length ?tasks" using k by (simp add: startAll_tasks)
    with mids have "task_outcome env k (?tasks ! k) = Inr (mids ! k)" by blast
    then obtain c m a where
      bd: "build env k (bundleOptions_of d config options b (bundles ! k)) = Inr (c, m)"
      and mid: "mids ! k = \<lparr> code = c, map_str = m, hermesBytecodeBundle = None,
                     hermesSourcemap = None, assets = a \<rparr>"
      unfolding startAll_task_nth [OF k] task_outcome_Building by blast
    from ok k bd have chk: "maybeThrowFromInconsistentEngineAsync env k pr
          (configFilePath_of (getConfigFilePaths env pr)) (platform (bundles ! k))
          (isEnableHermesManaged env cfg (platform (bundles ! k))) = None"
      and hb: "isEnableHermesManaged env cfg (platform (bundles ! k)) \<longrightarrow>
           (\<exists>h. buildHermesBundleAsync env k pr c m (minify (bundles ! k)) = Inr h)"
      unfolding b_def by fastforce+
    show ?thesis
      by (rule maybeAdd_succeeds [OF chk]) (use hb mid in simp)
  qed
  show ?thesis
  proof (rule bundleAsync_cases [OF assms(1-4) b_def refl refl, where sched = sched and cfg = cfg
            and bundles = bundles])
    fix effs1' err
    assume "promise_all env b sched ?tasks = (effs1', Inl err)"
    with pa show ?thesis by simp
  next
    fix effs1' mids' effs2 r
    assume pa': "promise_all env b sched ?tasks = (effs1', Inr mids')"
      and hl: "hermesLoop env pr cfg bundles mids' 0 [] = (effs2, r)"
      and run: "bundleAsync env sched n pr cfg options bundles
                  = (?started @ effs1' @ effs2 @ [metroServer_end], r, Suc n)"
    from pa pa' have "mids' = mids" by simp
    with hermesLoop_all_ok [of 0 bundles env pr cfg mids "[]"] step hl
    obtain outs where "r = Inr outs" by auto
    with run show ?thesis by (simp add: result_of_def)
  qed
qed



lemma demo_all_succeed:
  "\<forall>i<length [android_request, ios_request]. \<exists>c m a.
      build demo_env i (bundleOptions_of demo_defaults demo_config demo_options
        (''bundle_'' @ string_of_nat 7) ([android_request, ios_request] ! i)) = Inr (c, m) \<and>
      getAssets demo_env i (bundleOptions_of demo_defaults demo_config demo_options
        (''bundle_'' @ string_of_nat 7) ([android_request, ios_request] ! i)) = Inr a \<and>
      maybeThrowFromInconsistentEngineAsync demo_env i ''/p''
        (configFilePath_of (getConfigFilePaths demo_env ''/p''))
        (platform ([android_request, ios_request] ! i))
        (isEnableHermesManaged demo_env [android]
           (platform ([android_request, ios_request] ! i))) = None \<and>
      (isEnableHermesManaged demo_env [android]
           (platform ([android_request, ios_request] ! i)) \<longrightarrow>
         (\<exists>h. buildHermesBundleAsync demo_env i ''/p'' c m
                (minify ([android_request, ios_request] ! i)) = Inr h))"
  by (simp add: demo_env_def)



text \<open>
  C3. For every bundle output returned by bundleAsync, the bytecode fields
  (\<^verbatim>\<open>hermesBytecodeBundle\<close> and \<^verbatim>\<open>hermesSourcemap\<close>) are populated if and only if the app
  configuration enables Hermes for the platform of that target: for such a target they
  hold the bytecode and the source map that the compiler answered for the code and map
  of that output; for a target not so configured they are absent. And such outputs are
  returned: when every build, asset collection, engine check and bytecode compilation
  succeeds, bundleAsync returns an array with one output for each request.
\<close>

theorem hermes_fields_iff_managed:
  assumes "importMetroFromProject env projectRoot = None"
    and "importMetroServerFromProject env projectRoot = Inr DEFAULT_BUNDLE_OPTIONS"
    and "loadAsync env projectRoot options = Inr config"
    and "runMetro env config = None"
    and "i < length bundles"
  shows
    "((\<forall>i<length bundles. \<exists>c m a.
          build env i (bundleOptions_of DEFAULT_BUNDLE_OPTIONS config options
            (''bundle_'' @ string_of_nat nextBuildID) (bundles ! i)) = Inr (c, m) \<and>
          getAssets env i (bundleOptions_of DEFAULT_BUNDLE_OPTIONS config options
            (''bundle_'' @ string_of_nat nextBuildID) (bundles ! i)) = Inr a \<and>
          maybeThrowFromInconsistentEngineAsync env i projectRoot
            (configFilePath_of (getConfigFilePaths env projectRoot)) (platform (bundles ! i))
            (isEnableHermesManaged env expoConfig (platform (bundles ! i))) = None \<and>
          (isEnableHermesManaged env expoConfig (platform (bundles ! i)) \<longrightarrow>
             (\<exists>h. buildHermesBundleAsync env i projectRoot c m (minify (bundles ! i)) = Inr h)))
        \<longrightarrow> (\<exists>outs.
              result_of (bundleAsync env sched nextBuildID projectRoot expoConfig options bundles)
                = Inr outs \<and> length outs = length bundles))
     \<and> (\<forall>outs.
           result_of (bundleAsync env sched nextBuildID projectRoot expoConfig options bundles)
             = Inr outs \<longrightarrow>
           i < length outs
           \<and> (hermesBytecodeBundle (outs ! i) \<noteq> None
                \<longleftrightarrow> isEnableHermesManaged env expoConfig (platform (bundles ! i)))
           \<and> (hermesSourcemap (outs ! i) \<noteq> None
                \<longleftrightarrow> isEnableHermesManaged env expoConfig (platform (bundles ! i)))
           \<and> (isEnableHermesManaged env expoConfig (platform (bundles ! i)) \<longrightarrow>
                (\<exists>h. buildHermesBundleAsync env i projectRoot (code (outs ! i))
                        (map_str (outs ! i)) (minify (bundles ! i)) = Inr h
                     \<and> hermesBytecodeBundle (outs ! i) = Some (hbc h)
                     \<and> hermesSourcemap (outs ! i) = Some (sourcemap h))))"
proof (rule conjI)
  show "(\<forall>i<length bundles. \<exists>c m a.
          build env i (bundleOptions_of DEFAULT_BUNDLE_OPTIONS config options
            (''bundle_'' @ string_of_nat nextBuildID) (bundles ! i)) = Inr (c, m) \<and>
          getAssets env i (bundleOptions_of DEFAULT_BUNDLE_OPTIONS config options
            (''bundle_'' @ string_of_nat nextBuildID) (bundles ! i)) = Inr a \<and>
          maybeThrowFromInconsistentEngineAsync env i projectRoot
            (configFilePath_of (getConfigFilePaths env projectRoot)) (platform (bundles ! i))
            (isEnableHermesManaged env expoConfig (platform (bundles ! i))) = None \<and>
          (isEnableHermesManaged env expoConfig (platform (bundles ! i)) \<longrightarrow>
             (\<exists>h. buildHermesBundleAsync env i projectRoot c m (minify (bundles ! i)) = Inr h)))
        \<longrightarrow> (\<exists>outs.
              result_of (bundleAsync env sched nextBuildID projectRoot expoConfig options bundles)
                = Inr outs \<and> length outs = length bundles)"
  proof
    assume ok: "\<forall>i<length bundles. \<exists>c m a.
          build env i (bundleOptions_of DEFAULT_BUNDLE_OPTIONS config options
            (''bundle_'' @ string_of_nat nextBuildID) (bundles ! i)) = Inr (c, m) \<and>
          getAssets env i (bundleOptions_of DEFAULT_BUNDLE_OPTIONS config options
            (''bundle_'' @ string_of_nat nextBuildID) (bundles ! i)) = Inr a \<and>
          maybeThrowFromInconsistentEngineAsync env i projectRoot
            (configFilePath_of (getConfigFilePaths env projectRoot)) (platform (bundles ! i))
            (isEnableHermesManaged env expoConfig (platform (bundles ! i))) = None \<and>
          (isEnableHermesManaged env expoConfig (platform (bundles ! i)) \<longrightarrow>
             (\<exists>h. buildHermesBundleAsync env i projectRoot c m (minify (bundles ! i)) = Inr h))"
    from bundleAsync_returns [OF assms(1-4) ok, of sched] obtain outs where
      res: "result_of (bundleAsync env sched nextBuildID projectRoot expoConfig options bundles)
              = Inr outs"
      by blast
    have "length outs = length bundles"
      by (rule bundleAsync_success(1) [OF assms(1-4) refl res])
    with res show "\<exists>outs.
        result_of (bundleAsync env sched nextBuildID projectRoot expoConfig options bundles)
          = Inr outs \<and> length outs = length bundles"
      by blast
  qed
next
  show "\<forall>outs.
           result_of (bundleAsync env sched nextBuildID projectRoot expoConfig options bundles)
             = Inr outs \<longrightarrow>
           i < length outs
           \<and> (hermesBytecodeBundle (outs ! i) \<noteq> None
                \<longleftrightarrow> isEnableHermesManaged env expoConfig (platform (bundles ! i)))
           \<and> (hermesSourcemap (outs ! i) \<noteq> None
                \<longleftrightarrow> isEnableHermesManaged env expoConfig (platform (bundles ! i)))
           \<and> (isEnableHermesManaged env expoConfig (platform (bundles ! i)) \<longrightarrow>
                (\<exists>h. buildHermesBundleAsync env i projectRoot (code (outs ! i))
                        (map_str (outs ! i)) (minify (bundles ! i)) = Inr h
                     \<and> hermesBytecodeBundle (outs ! i) = Some (hbc h)
                     \<and> hermesSourcemap (outs ! i) = Some (sourcemap h)))"
  proof (intro allI impI)
    fix outs
    assume res: "result_of (bundleAsync env sched nextBuildID projectRoot expoConfig options
                   bundles) = Inr outs"
    have len: "length outs = length bundles"
      by (rule bundleAsync_success(1) [OF assms(1-4) refl res])
    from bundleAsync_success(2) [OF assms(1-4) refl res assms(5)]
    obtain c m a where
      st: "snd (maybeAddHermesBundleAsync env projectRoot expoConfig i (bundles ! i)
            \<lparr> code = c, map_str = m, hermesBytecodeBundle = None,
              hermesSourcemap = None, assets = a \<rparr>) = Inr (outs ! i)"
      by blast
    show "i < length outs
           \<and> (hermesBytecodeBundle (outs ! i) \<noteq> None
                \<longleftrightarrow> isEnableHermesManaged env expoConfig (platform (bundles ! i)))
           \<and> (hermesSourcemap (outs ! i) \<noteq> None
                \<longleftrightarrow> isEnableHermesManaged env expoConfig (platform (bundles ! i)))
           \<and> (isEnableHermesManaged env expoConfig (platform (bundles ! i)) \<longrightarrow>
                (\<exists>h. buildHermesBundleAsync env i projectRoot (code (outs ! i))
                        (map_str (outs ! i)) (minify (bundles ! i)) = Inr h
                     \<and> hermesBytecodeBundle (outs ! i) = Some (hbc h)
                     \<and> hermesSourcemap (outs ! i) = Some (sourcemap h)))"
    proof (cases "isEnableHermesManaged env expoConfig (platform (bundles ! i))")
      case True
      with maybeAdd_result_exact [OF st] obtain h where
        "buildHermesBundleAsync env i projectRoot c m (minify (bundles ! i)) = Inr h"
        "outs ! i = \<lparr> code = c, map_str = m, hermesBytecodeBundle = Some (hbc h),
                      hermesSourcemap = Some (sourcemap h), assets = a \<rparr>"
        by auto
      with True len assms(5) show ?thesis by simp
    next
      case False
      with maybeAdd_result_exact [OF st] have
        "outs ! i = \<lparr> code = c, map_str = m, hermesBytecodeBundle = None,
                      hermesSourcemap = None, assets = a \<rparr>"
        by simp
      with False len assms(5) show ?thesis by simp
    qed
  qed
qed

theorem hermes_fields_iff_managed_witness:
  "\<exists>outs. result_of (bundleAsync demo_env [1, 0] 7 ''/p'' [android] demo_options
        [android_request, ios_request]) = Inr outs
     \<and> length outs = length [android_request, ios_request]
     \<and> isEnableHermesManaged demo_env [android] (platform ([android_request, ios_request] ! 0))
     \<and> hermesBytecodeBundle (outs ! 0) = Some [198, 31]
     \<and> hermesSourcemap (outs ! 0) = Some ''hermes map''
     \<and> \<not> isEnableHermesManaged demo_env [android] (platform ([android_request, ios_request] ! 1))
     \<and> hermesBytecodeBundle (outs ! 1) = None
     \<and> hermesSourcemap (outs ! 1) = None"
proof -
  have l0: "0 < length [android_request, ios_request]"
    and l1: "1 < length [android_request, ios_request]"
    by simp_all
  note t0 = hermes_fields_iff_managed [OF demo_prelude l0, where projectRoot = "''/p''"
      and options = demo_options and sched = "[1, 0]" and nextBuildID = 7
      and expoConfig = "[android]"]
  note t1 = hermes_fields_iff_managed [OF demo_prelude l1, where projectRoot = "''/p''"
      and options = demo_options and sched = "[1, 0]" and nextBuildID = 7
      and expoConfig = "[android]"]
  from t0 demo_all_succeed obtain outs where
    res: "result_of (bundleAsync demo_env [1, 0] 7 ''/p'' [android] demo_options
        [android_request, ios_request]) = Inr outs"
    and len: "length outs = length [android_request, ios_request]"
    by blast
  have m0: "isEnableHermesManaged demo_env [android]
              (platform ([android_request, ios_request] ! 0))"
    by (simp add: demo_defs)
  have m1: "\<not> isEnableHermesManaged demo_env [android]
              (platform ([android_request, ios_request] ! 1))"
    by (simp add: demo_defs)
  from t0 res m0 obtain h where
    h: "buildHermesBundleAsync demo_env 0 ''/p'' (code (outs ! 0)) (map_str (outs ! 0))
          (minify ([android_request, ios_request] ! 0)) = Inr h"
    and f0: "hermesBytecodeBundle (outs ! 0) = Some (hbc h)"
      "hermesSourcemap (outs ! 0) = Some (sourcemap h)"
    by blast
  from h have "h = \<lparr> hbc = [198, 31], sourcemap = ''hermes map'' \<rparr>"
    by (simp add: demo_env_def)
  with f0 have v0: "hermesBytecodeBundle (outs ! 0) = Some [198, 31]"
    "hermesSourcemap (outs ! 0) = Some ''hermes map''"
    by simp_all
  from t1 res m1 have v1: "hermesBytecodeBundle (outs ! 1) = None"
    "hermesSourcemap (outs ! 1) = None"
    by blast+
  from res len m0 v0 m1 v1 show ?thesis
    by blast
qed

lemma step_rejected_no_done:
  assumes "buildAsync_step env b i t = (effs, Inl e)"
  shows "filter is_done effs = []"
  using assms
  by (cases "(env, b, i, t)" rule: buildAsync_step.cases) (auto split: sum.splits prod.splits)

lemma promise_all_done_rejected:
  assumes "\<forall>t\<in>set tasks. \<forall>f. task_onProgress t = Some f \<longrightarrow> f = progressCallback options b"
    and "promise_all env b sched tasks = (effs, Inl e)"
  shows "length (filter is_done effs) < length (pending tasks)"
  using assms
proof (induction env b sched tasks arbitrary: effs rule: promise_all.induct)
  case (1 env b sched tasks)
  note allI = "1.prems"(1) and run = "1.prems"(2)
  show ?case
  proof (cases "pending tasks = []")
    case True
    with run show ?thesis by (simp add: promise_all.simps)
  next
    case False
    let ?i = "pick sched tasks"
    note pk = pick_pending [OF False, of sched]
    obtain effs1 r1 where st: "buildAsync_step env b ?i (tasks ! ?i) = (effs1, r1)"
      by (cases "buildAsync_step env b ?i (tasks ! ?i)")
    have inv: "\<forall>f. task_onProgress (tasks ! ?i) = Some f \<longrightarrow> f = progressCallback options b"
      using allI nth_mem [OF pk(1)] by blast
    show ?thesis
    proof (cases r1)
      case (Inl e')
      with False st run have "effs = effs1"
        by (simp add: promise_all.simps)
      with step_rejected_no_done [OF st [unfolded Inl]] False show ?thesis
        by simp
    next
      case (Inr t)
      obtain effs2 r2 where rec: "promise_all env b (tl sched) (tasks[?i := t]) = (effs2, r2)"
        by (cases "promise_all env b (tl sched) (tasks[?i := t])")
      from False st Inr rec run have eq: "effs = effs1 @ effs2" and r2: "r2 = Inl e"
        by (simp_all add: promise_all.simps)
      have "\<forall>f. task_onProgress t = Some f \<longrightarrow> f = progressCallback options b"
        using step_callback [OF inv] st Inr by simp
      then have all: "\<forall>t\<in>set (tasks[?i := t]).
                        \<forall>f. task_onProgress t = Some f \<longrightarrow> f = progressCallback options b"
        using allI by (auto dest: set_update_subset_insert [THEN subsetD])
      have ih: "length (filter is_done effs2) < length (pending (tasks[?i := t]))"
        using "1.IH" [OF False st [symmetric] Inr all] rec r2 by simp
      have nd: "\<forall>f. task_onProgress (tasks ! ?i) = Some f \<longrightarrow>
                  (\<forall>x y. \<forall>ev\<in>set (f x y). \<not> is_done (reporter_update ev))"
        using inv by (auto simp: progressCallback_def split: if_splits)
      have "length (filter is_done effs1) = (if output_of t = None then 0 else 1)"
        using step_done [OF pk(2) st [unfolded Inr] nd] .
      then show ?thesis
        using length_pending_update [OF pk, of t] ih by (simp add: eq)
    qed
  qed
qed

text \<open>
  C7, as amended. In bundleAsync, when \<^verbatim>\<open>options.quiet\<close> is set, no
  \<^verbatim>\<open>bundle_transform_progressed\<close> event is reported for any target. Whether quiet is set or
  not, one \<^verbatim>\<open>bundle_build_started\<close> event is reported for every target, in the order of
  the requests; one \<^verbatim>\<open>bundle_build_done\<close> event is reported for every target when the build
  and the asset collection of every target succeed (so whenever the batch succeeds), and
  fewer events than targets when a build or an asset collection fails. Every reported
  event carries the build identifier of the invocation.
\<close>

theorem quiet_suppresses_only_progress:
  assumes "importMetroFromProject env projectRoot = None"
    and "importMetroServerFromProject env projectRoot = Inr DEFAULT_BUNDLE_OPTIONS"
    and "loadAsync env projectRoot options = Inr config"
    and "runMetro env config = None"
  shows
    "(quiet options = Some True \<longrightarrow>
        filter is_progressed
          (effects_of (bundleAsync env sched nextBuildID projectRoot expoConfig options bundles))
          = [])
     \<and> filter is_started
          (effects_of (bundleAsync env sched nextBuildID projectRoot expoConfig options bundles))
        = map (\<lambda>req. reporter_update
                 (bundle_build_started (''bundle_'' @ string_of_nat nextBuildID)
                    \<lparr> bundleTypeD = ''bundle'', platformD = platform req,
                      entryFileD = entryPoint req,
                      devD = (case dev req of Some v \<Rightarrow> v | None \<Rightarrow> False),
                      minifyD = (case minify req of Some v \<Rightarrow> v | None \<Rightarrow> False) \<rparr>))
            bundles
     \<and> ((\<forall>i<length bundles. \<exists>c m a.
            build env i (bundleOptions_of DEFAULT_BUNDLE_OPTIONS config options
              (''bundle_'' @ string_of_nat nextBuildID) (bundles ! i)) = Inr (c, m) \<and>
            getAssets env i (bundleOptions_of DEFAULT_BUNDLE_OPTIONS config options
              (''bundle_'' @ string_of_nat nextBuildID) (bundles ! i)) = Inr a) \<longrightarrow>
          length (filter is_done
            (effects_of (bundleAsync env sched nextBuildID projectRoot expoConfig options bundles)))
            = length bundles)
     \<and> ((\<exists>i<length bundles. \<exists>e.
            build env i (bundleOptions_of DEFAULT_BUNDLE_OPTIONS config options
              (''bundle_'' @ string_of_nat nextBuildID) (bundles ! i)) = Inl e \<or>
            getAssets env i (bundleOptions_of DEFAULT_BUNDLE_OPTIONS config options
              (''bundle_'' @ string_of_nat nextBuildID) (bundles ! i)) = Inl e) \<longrightarrow>
          length (filter is_done
            (effects_of (bundleAsync env sched nextBuildID projectRoot expoConfig options bundles)))
            < length bundles)
     \<and> ((\<exists>outs. result_of (bundleAsync env sched nextBuildID projectRoot expoConfig options
                      bundles) = Inr outs) \<longrightarrow>
          length (filter is_done
            (effects_of (bundleAsync env sched nextBuildID projectRoot expoConfig options bundles)))
            = length bundles)
     \<and> (\<forall>e\<in>set (effects_of (bundleAsync env sched nextBuildID projectRoot expoConfig options
                     bundles)).
          \<forall>ev. e = reporter_update ev \<longrightarrow>
            buildID_of ev = ''bundle_'' @ string_of_nat nextBuildID)"
proof -
  define b where "b = ''bundle_'' @ string_of_nat nextBuildID"
  let ?run = "bundleAsync env sched nextBuildID projectRoot expoConfig options bundles"
  let ?started = "concat (map fst (startAll env DEFAULT_BUNDLE_OPTIONS config options b bundles))"
  let ?tasks = "map snd (startAll env DEFAULT_BUNDLE_OPTIONS config options b bundles)"
  obtain effs1 effs2 where
    eq: "effects_of ?run = ?started @ effs1 @ effs2 @ [metroServer_end]"
    and e1: "\<And>e. e \<in> set effs1 \<Longrightarrow>
       build_effect e \<and> \<not> is_started e \<and> (is_progressed e \<longrightarrow> quiet options \<noteq> Some True)
         \<and> (\<forall>ev. e = reporter_update ev \<longrightarrow> buildID_of ev = b)
         \<and> (\<forall>k bo. e \<noteq> metroServer_build k bo)"
    and e2: "\<And>e. e \<in> set effs2 \<Longrightarrow>
       \<not> build_effect e \<and> e \<noteq> metroServer_end \<and> (\<exists>k<length bundles. hermes_effect_at k e)"
    by (rule bundleAsync_effects [OF assms b_def, where sched = sched and cfg = expoConfig
          and bundles = bundles]) (rule that)
  have s1: "filter is_started effs1 = []"
    using e1 by (simp add: filter_empty_conv)
  have k2: "\<not> is_started e \<and> \<not> is_progressed e \<and> \<not> is_done e" if "e \<in> set effs2" for e
    using e2 [OF that] reporter_kinds(1-3) [of e] by blast
  have s2: "filter is_started effs2 = []" and p2: "filter is_progressed effs2 = []"
    and d2: "filter is_done effs2 = []"
    using k2 by (simp_all add: filter_empty_conv)
  have ev: "startedEvent b (bundleOptions_of DEFAULT_BUNDLE_OPTIONS config options b req) req
              = bundle_build_started b
                  \<lparr> bundleTypeD = ''bundle'', platformD = platform req,
                    entryFileD = entryPoint req,
                    devD = (case dev req of Some v \<Rightarrow> v | None \<Rightarrow> False),
                    minifyD = (case minify req of Some v \<Rightarrow> v | None \<Rightarrow> False) \<rparr>" for req
    by (simp add: startedEvent_def bundleOptions_of_def nullish_def)
  have c2: "filter is_started (effects_of ?run)
        = map (\<lambda>req. reporter_update
                 (bundle_build_started b
                    \<lparr> bundleTypeD = ''bundle'', platformD = platform req,
                      entryFileD = entryPoint req,
                      devD = (case dev req of Some v \<Rightarrow> v | None \<Rightarrow> False),
                      minifyD = (case minify req of Some v \<Rightarrow> v | None \<Rightarrow> False) \<rparr>))
            bundles"
    unfolding eq by (simp add: startAll_started_events s1 s2 ev)
  have c1: "filter is_progressed (effects_of ?run) = []" if "quiet options = Some True"
  proof -
    have "filter is_progressed effs1 = []"
      using e1 that by (simp add: filter_empty_conv)
    then show ?thesis
      unfolding eq by (simp add: startAll_no_progress_done p2)
  qed
  have outcome: "task_outcome env j (?tasks ! j)
                   = (case build env j (bundleOptions_of DEFAULT_BUNDLE_OPTIONS config options b
                                  (bundles ! j)) of
                        Inl e \<Rightarrow> Inl e
                      | Inr (c, m) \<Rightarrow> assets_outcome env j
                          (bundleOptions_of DEFAULT_BUNDLE_OPTIONS config options b (bundles ! j))
                          c m)"
    if "j < length bundles" for j
    by (simp add: startAll_task_nth [OF that])
  have c3: "length (filter is_done (effects_of ?run)) = length bundles"
    if built: "\<forall>i<length bundles. \<exists>c m a.
            build env i (bundleOptions_of DEFAULT_BUNDLE_OPTIONS config options b (bundles ! i))
              = Inr (c, m) \<and>
            getAssets env i (bundleOptions_of DEFAULT_BUNDLE_OPTIONS config options b
              (bundles ! i)) = Inr a"
  proof -
    have "\<exists>out. task_outcome env j (?tasks ! j) = Inr out" if "j < length ?tasks" for j
    proof -
      from that have j: "j < length bundles" by (simp add: startAll_tasks)
      with built show ?thesis
        unfolding startAll_task_nth [OF j] task_outcome_Building by blast
    qed
    then obtain effs1' mids where pa: "promise_all env b sched ?tasks = (effs1', Inr mids)"
      using promise_all_all_built [of ?tasks env b sched] by blast
    show ?thesis
    proof (rule bundleAsync_cases [OF assms b_def refl refl, where sched = sched
              and cfg = expoConfig and bundles = bundles])
      fix effs1'' err
      assume "promise_all env b sched ?tasks = (effs1'', Inl err)"
      with pa show ?thesis by simp
    next
      fix effs1'' mids' effs2' r
      assume pa': "promise_all env b sched ?tasks = (effs1'', Inr mids')"
        and hl: "hermesLoop env projectRoot expoConfig bundles mids' 0 [] = (effs2', r)"
        and run: "bundleAsync env sched nextBuildID projectRoot expoConfig options bundles
                    = (?started @ effs1'' @ effs2' @ [metroServer_end], r, Suc nextBuildID)"
      have "length (filter is_done effs1'') = length bundles"
        using promise_all_done [OF startAll_callbacks pa'] by (simp add: startAll_pending)
      moreover have "filter is_done effs2' = []"
      proof -
        have "\<not> is_done e" if "e \<in> set effs2'" for e
        proof -
          have "e \<in> set (fst (hermesLoop env projectRoot expoConfig bundles mids' 0 []))"
            using that hl by simp
          from hermesLoop_effect_kinds [OF this] reporter_kinds(3) [of e] show ?thesis by blast
        qed
        then show ?thesis by (simp add: filter_empty_conv)
      qed
      ultimately show ?thesis
        unfolding run effects_of_def fst_conv by (simp add: startAll_no_progress_done)
    qed
  qed
  have c3b: "length (filter is_done (effects_of ?run)) < length bundles"
    if bad: "\<exists>i<length bundles. \<exists>e.
            build env i (bundleOptions_of DEFAULT_BUNDLE_OPTIONS config options b (bundles ! i))
              = Inl e \<or>
            getAssets env i (bundleOptions_of DEFAULT_BUNDLE_OPTIONS config options b
              (bundles ! i)) = Inl e"
  proof (rule bundleAsync_cases [OF assms b_def refl refl, where sched = sched
            and cfg = expoConfig and bundles = bundles])
    fix effs1' err
    assume pa: "promise_all env b sched ?tasks = (effs1', Inl err)"
      and run: "bundleAsync env sched nextBuildID projectRoot expoConfig options bundles
                  = (?started @ effs1' @ [metroServer_end], Inl err, Suc nextBuildID)"
    have "length (filter is_done effs1') < length bundles"
      using promise_all_done_rejected [OF startAll_callbacks pa] by (simp add: startAll_pending)
    then show ?thesis
      unfolding run effects_of_def fst_conv by (simp add: startAll_no_progress_done)
  next
    fix effs1' mids effs2' r
    assume pa: "promise_all env b sched ?tasks = (effs1', Inr mids)"
    from bad obtain i where i: "i < length bundles"
      and f: "(\<exists>e. build env i (bundleOptions_of DEFAULT_BUNDLE_OPTIONS config options b
                      (bundles ! i)) = Inl e) \<or>
              (\<exists>e. getAssets env i (bundleOptions_of DEFAULT_BUNDLE_OPTIONS config options b
                      (bundles ! i)) = Inl e)"
      by blast
    have "i < length ?tasks" using i by (simp add: startAll_tasks)
    with promise_all_outcome [OF pa] have "task_outcome env i (?tasks ! i) = Inr (mids ! i)"
      by simp
    then obtain c m a where
      "build env i (bundleOptions_of DEFAULT_BUNDLE_OPTIONS config options b (bundles ! i))
         = Inr (c, m)"
      "getAssets env i (bundleOptions_of DEFAULT_BUNDLE_OPTIONS config options b (bundles ! i))
         = Inr a"
      unfolding startAll_task_nth [OF i] task_outcome_Building by blast
    with f show ?thesis by auto
  qed
  have c3r: "length (filter is_done (effects_of ?run)) = length bundles"
    if "\<exists>outs. result_of ?run = Inr outs"
  proof -
    from that obtain outs where res: "result_of ?run = Inr outs" by blast
    have "\<forall>i<length bundles. \<exists>c m a.
            build env i (bundleOptions_of DEFAULT_BUNDLE_OPTIONS config options b (bundles ! i))
              = Inr (c, m) \<and>
            getAssets env i (bundleOptions_of DEFAULT_BUNDLE_OPTIONS config options b
              (bundles ! i)) = Inr a"
      using bundleAsync_success(2) [OF assms b_def res] by blast
    then show ?thesis by (rule c3)
  qed
  have c4: "buildID_of ev = b" if "reporter_update ev \<in> set (effects_of ?run)" for ev
  proof -
    from that consider "reporter_update ev \<in> set ?started" | "reporter_update ev \<in> set effs1"
      | "reporter_update ev \<in> set effs2"
      unfolding eq by auto
    then show ?thesis
    proof cases
      case 1
      then show ?thesis by (rule startAll_buildIDs)
    next
      case 2
      from e1 [OF this] show ?thesis by blast
    next
      case 3
      from e2 [OF this] show ?thesis by simp
    qed
  qed
  from c1 c2 c3 c3b c3r c4 show ?thesis
    unfolding b_def by blast
qed

lemma failing_done_events:
  "length (filter is_done (effects_of (bundleAsync failing_env [1, 0] 7 ''/p'' [android]
      demo_options [android_request, ios_request]))) = 1"
  by (simp add: run_defs demo_defs failing_env_def bundleOptions_of_def)

theorem quiet_suppresses_only_progress_witness:
  "quiet demo_options = Some True
   \<and> filter is_progressed (effects_of (bundleAsync demo_env [1, 0] 7 ''/p'' [android] demo_options
        [android_request, ios_request])) = []
   \<and> length (filter is_started (effects_of (bundleAsync demo_env [1, 0] 7 ''/p'' [android]
        demo_options [android_request, ios_request]))) = 2
   \<and> length (filter is_done (effects_of (bundleAsync demo_env [1, 0] 7 ''/p'' [android]
        demo_options [android_request, ios_request]))) = 2
   \<and> length (filter is_started (effects_of (bundleAsync failing_env [1, 0] 7 ''/p'' [android]
        demo_options [android_request, ios_request]))) = 2
   \<and> length (filter is_done (effects_of (bundleAsync failing_env [1, 0] 7 ''/p'' [android]
        demo_options [android_request, ios_request]))) < 2
   \<and> filter is_progressed (effects_of (bundleAsync demo_env [1, 0] 7 ''/p'' [android] loud_options
        [android_request, ios_request]))
      = [reporter_update (bundle_transform_progressed ''bundle_7'' 1 2),
         reporter_update (bundle_transform_progressed ''bundle_7'' 1 2)]"
proof -
  have q: "quiet demo_options = Some True"
    by (simp add: demo_options_def)
  note t = quiet_suppresses_only_progress [OF demo_prelude, where projectRoot = "''/p''"
      and options = demo_options and sched = "[1, 0]" and nextBuildID = 7
      and expoConfig = "[android]" and bundles = "[android_request, ios_request]"]
  note f = quiet_suppresses_only_progress [OF failing_prelude, where projectRoot = "''/p''"
      and options = demo_options and sched = "[1, 0]" and nextBuildID = 7
      and expoConfig = "[android]" and bundles = "[android_request, ios_request]"]
  have built: "\<forall>i<length [android_request, ios_request]. \<exists>c m a.
      build demo_env i (bundleOptions_of demo_defaults demo_config demo_options
        (''bundle_'' @ string_of_nat 7) ([android_request, ios_request] ! i)) = Inr (c, m) \<and>
      getAssets demo_env i (bundleOptions_of demo_defaults demo_config demo_options
        (''bundle_'' @ string_of_nat 7) ([android_request, ios_request] ! i)) = Inr a"
    by (simp add: demo_env_def)
  have fails: "build failing_env 1 (bundleOptions_of demo_defaults demo_config demo_options
         (''bundle_'' @ string_of_nat 7) ([android_request, ios_request] ! 1))
       = Inl (Error ''SyntaxError'')"
    by (simp add: failing_env_def)
  have "(1::nat) < length [android_request, ios_request]"
    by simp
  with fails have bad: "\<exists>i<length [android_request, ios_request]. \<exists>e.
      build failing_env i (bundleOptions_of demo_defaults demo_config demo_options
         (''bundle_'' @ string_of_nat 7) ([android_request, ios_request] ! i)) = Inl e \<or>
      getAssets failing_env i (bundleOptions_of demo_defaults demo_config demo_options
         (''bundle_'' @ string_of_nat 7) ([android_request, ios_request] ! i)) = Inl e"
    by blast
  from t q have c1: "filter is_progressed (effects_of (bundleAsync demo_env [1, 0] 7 ''/p''
        [android] demo_options [android_request, ios_request])) = []"
    by blast
  from t have "filter is_started (effects_of (bundleAsync demo_env [1, 0] 7 ''/p''
        [android] demo_options [android_request, ios_request]))
      = map (\<lambda>req. reporter_update
                 (bundle_build_started (''bundle_'' @ string_of_nat 7)
                    \<lparr> bundleTypeD = ''bundle'', platformD = platform req,
                      entryFileD = entryPoint req,
                      devD = (case dev req of Some v \<Rightarrow> v | None \<Rightarrow> False),
                      minifyD = (case minify req of Some v \<Rightarrow> v | None \<Rightarrow> False) \<rparr>))
            [android_request, ios_request]"
    by blast
  then have c2: "length (filter is_started (effects_of (bundleAsync demo_env [1, 0] 7 ''/p''
        [android] demo_options [android_request, ios_request]))) = 2"
    by simp
  from t built have c3: "length (filter is_done (effects_of (bundleAsync demo_env [1, 0] 7 ''/p''
        [android] demo_options [android_request, ios_request])))
      = length [android_request, ios_request]"
    by blast
  from f have "filter is_started (effects_of (bundleAsync failing_env [1, 0] 7 ''/p''
        [android] demo_options [android_request, ios_request]))
      = map (\<lambda>req. reporter_update
                 (bundle_build_started (''bundle_'' @ string_of_nat 7)
                    \<lparr> bundleTypeD = ''bundle'', platformD = platform req,
                      entryFileD = entryPoint req,
                      devD = (case dev req of Some v \<Rightarrow> v | None \<Rightarrow> False),
                      minifyD = (case minify req of Some v \<Rightarrow> v | None \<Rightarrow> False) \<rparr>))
            [android_request, ios_request]"
    by blast
  then have c4: "length (filter is_started (effects_of (bundleAsync failing_env [1, 0] 7 ''/p''
        [android] demo_options [android_request, ios_request]))) = 2"
    by simp
  from f bad have c5: "length (filter is_done (effects_of (bundleAsync failing_env [1, 0] 7 ''/p''
        [android] demo_options [android_request, ios_request])))
      < length [android_request, ios_request]"
    by blast
  from q c1 c2 c3 c4 c5 loud_progress show ?thesis
    by simp
qed

text \<open>
  C7, as stated, fails: with quiet set and two targets of which the second does not
  build, one \<^verbatim>\<open>bundle_build_done\<close> event is reported, not one for every target.
\<close>

theorem done_events_counterexample:
  "quiet demo_options = Some True
   \<and> length [android_request, ios_request] = 2
   \<and> build failing_env 1 (bundleOptions_of demo_defaults demo_config demo_options ''bundle_7''
        ios_request) = Inl (Error ''SyntaxError'')
   \<and> length (filter is_done (effects_of (bundleAsync failing_env [1, 0] 7 ''/p'' [android]
        demo_options [android_request, ios_request]))) = 1"
proof -
  have "quiet demo_options = Some True"
    by (simp add: demo_options_def)
  moreover have "build failing_env 1 (bundleOptions_of demo_defaults demo_config demo_options
      ''bundle_7'' ios_request) = Inl (Error ''SyntaxError'')"
    by (simp add: failing_env_def)
  ultimately show ?thesis
    using failing_done_events by simp
qed

text \<open>
  What the code does with the minify flag on the bytecode path: the compiler is called
  with the request's own \<^verbatim>\<open>bundle.minify\<close>, as it is.
\<close>

lemma hermes_receives_request_minify:
  assumes "importMetroFromProject env projectRoot = None"
    and "importMetroServerFromProject env projectRoot = Inr DEFAULT_BUNDLE_OPTIONS"
    and "loadAsync env projectRoot options = Inr config"
    and "runMetro env config = None"
    and "(i, mf) \<in> set (hermes_calls
           (effects_of (bundleAsync env sched nextBuildID projectRoot expoConfig options bundles)))"
  shows "i < length bundles
     \<and> isEnableHermesManaged env expoConfig (platform (bundles ! i))
     \<and> mf = minify (bundles ! i)
     \<and> metroServer_build i (bundleOptions_of DEFAULT_BUNDLE_OPTIONS config options
            (''bundle_'' @ string_of_nat nextBuildID) (bundles ! i))
          \<in> set (effects_of (bundleAsync env sched nextBuildID projectRoot expoConfig options
                     bundles))
     \<and> (\<forall>v. minify (bundles ! i) = Some v \<longrightarrow>
            mf = Some (minifyM (bundleOptions_of DEFAULT_BUNDLE_OPTIONS config options
                   (''bundle_'' @ string_of_nat nextBuildID) (bundles ! i))))
     \<and> (minify (bundles ! i) = None \<longrightarrow>
            mf = None \<and>
            minifyM (bundleOptions_of DEFAULT_BUNDLE_OPTIONS config options
                   (''bundle_'' @ string_of_nat nextBuildID) (bundles ! i))
              = (\<not> (case dev (bundles ! i) of Some v \<Rightarrow> v | None \<Rightarrow> False)))"
proof -
  let ?effs = "effects_of (bundleAsync env sched nextBuildID projectRoot expoConfig options bundles)"
  from assms(5) obtain p c m where mem: "hermes_build i p c m mf \<in> set ?effs"
    unfolding hermes_calls_member by blast
  from bundleAsync_hermes_effect [OF assms(1-4) mem]
  obtain k out where k: "k < length bundles"
    and e: "hermes_build i p c m mf
              \<in> set (fst (maybeAddHermesBundleAsync env projectRoot expoConfig k (bundles ! k) out))"
    by auto
  from maybeAdd_effects [OF e] have ki: "k = i" and mf: "mf = minify (bundles ! k)"
    and man: "isEnableHermesManaged env expoConfig (platform (bundles ! k))"
    by simp_all
  have call: "metroServer_build i (bundleOptions_of DEFAULT_BUNDLE_OPTIONS config options
            (''bundle_'' @ string_of_nat nextBuildID) (bundles ! i)) \<in> set ?effs"
    unfolding bundleAsync_build_calls [OF assms(1-4)] using k ki by simp
  have mm: "minifyM (bundleOptions_of DEFAULT_BUNDLE_OPTIONS config options b req) =
             (case minify req of
                Some m \<Rightarrow> m
              | None \<Rightarrow> \<not> (case dev req of Some v \<Rightarrow> v | None \<Rightarrow> False))" for b req
    by (simp add: bundleOptions_of_def nullish_def js_not_def split: option.splits)
  from k ki mf man call show ?thesis
    by (simp add: mm)
qed

lemma demo_hermes_calls:
  "hermes_calls (effects_of (bundleAsync demo_env [1, 0] 7 ''/p'' [android] demo_options
      [android_request, ios_request])) = [(0, None)]"
  by (simp add: run_defs demo_defs hermes_calls_def)

lemma hermes_receives_request_minify_demo:
  "(0, None) \<in> set (hermes_calls (effects_of (bundleAsync demo_env [1, 0] 7 ''/p'' [android]
      demo_options [android_request, ios_request])))
   \<and> minify ([android_request, ios_request] ! 0) = None
   \<and> minifyM (bundleOptions_of demo_defaults demo_config demo_options
          (''bundle_'' @ string_of_nat 7) ([android_request, ios_request] ! 0)) = True"
proof -
  have mem: "(0, None) \<in> set (hermes_calls (effects_of (bundleAsync demo_env [1, 0] 7 ''/p''
      [android] demo_options [android_request, ios_request])))"
    unfolding demo_hermes_calls by simp
  have dev: "dev ([android_request, ios_request] ! 0) = Some False"
    by (simp add: android_request_def)
  from hermes_receives_request_minify [OF demo_prelude mem] mem dev show ?thesis
    by simp
qed

text \<open>
  C2. The claim: when bundleAsync compiles the bundle of a target to Hermes bytecode, the
  compiler is called with the minify flag of the bundler build for that target,
  \<^verbatim>\<open>bundle.minify ?? !bundle.dev\<close>. The code does not do that: line 117 defaults the flag for
  the build, line 182 passes \<^verbatim>\<open>bundle.minify\<close> without the default. For the request
  \<open>android_request\<close> (minify unset, dev false, Hermes enabled for its platform) the build is
  called with minify = true, and the only bytecode compilation of the run is called with
  \<^verbatim>\<open>undefined\<close>, not with true.
\<close>

theorem hermes_minify_failing_input:
  "minify android_request = None \<and> dev android_request = Some False
   \<and> build_minify (effects_of (bundleAsync demo_env [1, 0] 7 ''/p'' [android] demo_options
        [android_request, ios_request]) ! 1) = Some True
   \<and> hermes_calls (effects_of (bundleAsync demo_env [1, 0] 7 ''/p'' [android] demo_options
        [android_request, ios_request])) = [(0, None)]
   \<and> (0, Some True) \<notin> set (hermes_calls (effects_of (bundleAsync demo_env [1, 0] 7 ''/p''
        [android] demo_options [android_request, ios_request])))"
proof -
  have "build_minify (effects_of (bundleAsync demo_env [1, 0] 7 ''/p'' [android] demo_options
        [android_request, ios_request]) ! 1) = Some True"
    by (simp add: run_defs demo_defs bundleOptions_of_def)
  moreover have "minify android_request = None \<and> dev android_request = Some False"
    by (simp add: android_request_def)
  moreover have "(0, Some True) \<notin> set (hermes_calls (effects_of (bundleAsync demo_env [1, 0] 7
        ''/p'' [android] demo_options [android_request, ios_request])))"
    unfolding demo_hermes_calls by simp
  ultimately show ?thesis
    using demo_hermes_calls by blast
qed

end
